theory Spec2Isabelle
  imports Main "HOL-Library.Signed_Division"
begin

section \<open>The task scheduler of \<open>src/util/src/tsched.c\<close>\<close>

text \<open>
  The scheduler is a ring buffer of task records guarded by one mutex and two counting
  semaphores, served by a pool of worker threads. The queue operations are embedded as
  small-step functions: every shared-memory statement of \<open>taosProcessSchedQueue\<close> and
  \<open>taosScheduleTask\<close> is one atomic step of the thread that runs it, and a schedule
  (a list of thread numbers, each with the result the operating system gives that
  thread's call) interleaves the steps. The life cycle (\<open>taosInitScheduler\<close>,
  \<open>taosCleanUpScheduler\<close>, \<open>taosDumpSchedulerStatus\<close>) is sequential code over a heap
  of scheduler objects and a ledger of the operating-system resources in use.
\<close>

subsection \<open>Data model\<close>

type_synonym addr = nat

abbreviation NULL :: addr where
  "NULL \<equiv> 0"

text \<open>
  Modelled from the spec: the type \<open>SSchedMsg\<close> is declared in \<open>tsched.h\<close>, which is not
  among the sources. The fields \<open>fp\<close>, \<open>tfp\<close>, \<open>ahandle\<close> and \<open>thandle\<close> are the ones
  \<open>tsched.c\<close> reads; \<open>payload\<close> stands for whatever else the fixed-size record carries.
  Pointers (to functions and to data) are addresses, \<open>NULL\<close> being 0.
\<close>

record SSchedMsg =
  fp :: addr
  tfp :: addr
  ahandle :: addr
  thandle :: addr
  payload :: nat

text \<open>What \<open>memset(slot, 0, sizeof(SSchedMsg))\<close> and \<open>calloc\<close> leave in a slot.\<close>

definition zeroMsg :: SSchedMsg where
  "zeroMsg = \<lparr>fp = NULL, tfp = NULL, ahandle = NULL, thandle = NULL, payload = 0\<rparr>"

text \<open>
  The struct \<open>SSchedQueue\<close>. A semaphore is its count; the mutex is the number of the
  thread that holds it, if any; the two arrays are absent (\<open>None\<close>) while their pointer
  is \<open>NULL\<close>. The fields of C type \<open>int\<close> are integers, and the arithmetic on them is
  written with the 32-bit wrap-around (\<open>int32\<close>) and C's truncating remainder (\<open>smod\<close>).
\<close>

record SSchedQueue =
  label :: string
  emptySem :: nat
  fullSem :: nat
  queueMutex :: "nat option"
  fullSlot :: int
  emptySlot :: int
  queueSize :: int
  numOfThreads :: int
  qthread :: "addr list option"
  queue :: "SSchedMsg list option"
  pTmrCtrl :: addr
  pTimer :: addr

definition int32 :: "int \<Rightarrow> int" where
  "int32 x = signed_take_bit 31 x"

definition DUMP_SCHEDULER_TIME_WINDOW :: int where
  "DUMP_SCHEDULER_TIME_WINDOW = 30000"

subsection \<open>Queue operations, step by step\<close>

text \<open>
  What a call into the operating system returns to the thread: success, \<open>EINTR\<close>, or
  another error. Only \<open>tsem_wait\<close> can be interrupted; POSIX rules \<open>EINTR\<close> out for
  the mutex calls and for \<open>sem_post\<close>, so that outcome is not offered there.
\<close>

datatype outcome = Success | Interrupted | Failed

datatype sem = EmptySem | FullSem

datatype invocation =
    CallFp addr SSchedMsg
  | CallTfp addr addr addr
  | NoCall

datatype event =
    SemWait sem outcome
  | SemPost sem outcome
  | Lock outcome
  | Unlock outcome
  | SlotRead nat SSchedMsg
  | SlotClear nat
  | SlotWrite nat SSchedMsg
  | AdvanceFull int
  | AdvanceEmpty int
  | Invoke invocation
  | LogDropped SSchedMsg
  | Return int

datatype fault =
    Blocked
  | NotOffered
  | NullDeref
  | OutOfRange
  | DivByZero
  | NoSuchThread
  | Halted
  | UseAfterFree

text \<open>Program points of the worker loop (lines 122 to 149).\<close>

datatype wpc =
    W_Wait
  | W_Lock
  | W_Read
  | W_Clear
  | W_Advance
  | W_Unlock
  | W_Post
  | W_Call

text \<open>Lines 145 to 148: which callback the worker invokes for the record it holds.\<close>

definition dispatch :: "SSchedMsg \<Rightarrow> invocation" where
  "dispatch msg =
     (if fp msg \<noteq> NULL then CallFp (fp msg) msg
      else if tfp msg \<noteq> NULL then CallTfp (tfp msg) (ahandle msg) (thandle msg)
      else NoCall)"

text \<open>
  One step of thread \<open>me\<close> in \<open>taosProcessSchedQueue\<close>, at program point \<open>pc\<close> with the
  local variable \<open>msg\<close>: the next program point, the local variable, the scheduler
  object and the events of the step. A wait on a semaphore at 0 and a lock of a held
  mutex are \<open>Blocked\<close>. After a wait or lock that failed the code logs and goes on.
\<close>

fun taosProcessSchedQueue ::
  "outcome \<Rightarrow> wpc \<Rightarrow> SSchedMsg \<Rightarrow> nat \<Rightarrow> SSchedQueue
     \<Rightarrow> fault + (wpc \<times> SSchedMsg \<times> SSchedQueue \<times> event list)" where
  "taosProcessSchedQueue oc W_Wait msg me p =
     (case oc of
        Success \<Rightarrow>
          if fullSem p = 0 then Inl Blocked
          else Inr (W_Lock, msg, p\<lparr>fullSem := fullSem p - 1\<rparr>, [SemWait FullSem Success])
      | Interrupted \<Rightarrow> Inr (W_Wait, msg, p, [SemWait FullSem Interrupted])
      | Failed \<Rightarrow> Inr (W_Lock, msg, p, [SemWait FullSem Failed]))"
| "taosProcessSchedQueue oc W_Lock msg me p =
     (case oc of
        Success \<Rightarrow>
          (case queueMutex p of
             Some owner \<Rightarrow> Inl Blocked
           | None \<Rightarrow> Inr (W_Read, msg, p\<lparr>queueMutex := Some me\<rparr>, [Lock Success]))
      | Interrupted \<Rightarrow> Inl NotOffered
      | Failed \<Rightarrow> Inr (W_Read, msg, p, [Lock Failed]))"
| "taosProcessSchedQueue oc W_Read msg me p =
     (if oc \<noteq> Success then Inl NotOffered
      else case queue p of
        None \<Rightarrow> Inl NullDeref
      | Some slots \<Rightarrow>
          if 0 \<le> fullSlot p \<and> nat (fullSlot p) < length slots
          then Inr (W_Clear, slots ! nat (fullSlot p), p,
                    [SlotRead (nat (fullSlot p)) (slots ! nat (fullSlot p))])
          else Inl OutOfRange)"
| "taosProcessSchedQueue oc W_Clear msg me p =
     (if oc \<noteq> Success then Inl NotOffered
      else case queue p of
        None \<Rightarrow> Inl NullDeref
      | Some slots \<Rightarrow>
          if 0 \<le> fullSlot p \<and> nat (fullSlot p) < length slots
          then Inr (W_Advance, msg,
                    p\<lparr>queue := Some (slots[nat (fullSlot p) := zeroMsg])\<rparr>,
                    [SlotClear (nat (fullSlot p))])
          else Inl OutOfRange)"
| "taosProcessSchedQueue oc W_Advance msg me p =
     (if oc \<noteq> Success then Inl NotOffered
      else if queueSize p = 0 then Inl DivByZero
      else Inr (W_Unlock, msg,
                p\<lparr>fullSlot := int32 (fullSlot p + 1) smod queueSize p\<rparr>,
                [AdvanceFull (int32 (fullSlot p + 1) smod queueSize p)]))"
| "taosProcessSchedQueue oc W_Unlock msg me p =
     (case oc of
        Success \<Rightarrow> Inr (W_Post, msg, p\<lparr>queueMutex := None\<rparr>, [Unlock Success])
      | Interrupted \<Rightarrow> Inl NotOffered
      | Failed \<Rightarrow> Inr (W_Post, msg, p, [Unlock Failed]))"
| "taosProcessSchedQueue oc W_Post msg me p =
     (case oc of
        Success \<Rightarrow> Inr (W_Call, msg, p\<lparr>emptySem := emptySem p + 1\<rparr>, [SemPost EmptySem Success])
      | Interrupted \<Rightarrow> Inl NotOffered
      | Failed \<Rightarrow> Inr (W_Call, msg, p, [SemPost EmptySem Failed]))"
| "taosProcessSchedQueue oc W_Call msg me p =
     (if oc \<noteq> Success then Inl NotOffered
      else Inr (W_Wait, msg, p, [Invoke (dispatch msg)]))"

text \<open>
  Program points of \<open>taosScheduleTask\<close> (lines 154 to 182); \<open>P_Done\<close> says that the
  call has returned.
\<close>

datatype ppc =
    P_Entry
  | P_Wait
  | P_Lock
  | P_Write
  | P_Advance
  | P_Unlock
  | P_Post
  | P_Return
  | P_Done

text \<open>
  One step of thread \<open>me\<close> in \<open>taosScheduleTask(qhandle, pMsg)\<close>. A handle that is not
  \<open>NULL\<close> points to the scheduler object \<open>p\<close>. The record \<open>pMsg\<close> points to is passed
  by its value.
\<close>

fun taosScheduleTask ::
  "outcome \<Rightarrow> ppc \<Rightarrow> addr \<Rightarrow> SSchedMsg \<Rightarrow> nat \<Rightarrow> SSchedQueue
     \<Rightarrow> fault + (ppc \<times> SSchedQueue \<times> event list)" where
  "taosScheduleTask oc P_Entry qhandle pMsg me p =
     (if oc \<noteq> Success then Inl NotOffered
      else if qhandle = NULL then Inr (P_Done, p, [LogDropped pMsg, Return 0])
      else Inr (P_Wait, p, []))"
| "taosScheduleTask oc P_Wait qhandle pMsg me p =
     (case oc of
        Success \<Rightarrow>
          if emptySem p = 0 then Inl Blocked
          else Inr (P_Lock, p\<lparr>emptySem := emptySem p - 1\<rparr>, [SemWait EmptySem Success])
      | Interrupted \<Rightarrow> Inr (P_Wait, p, [SemWait EmptySem Interrupted])
      | Failed \<Rightarrow> Inr (P_Lock, p, [SemWait EmptySem Failed]))"
| "taosScheduleTask oc P_Lock qhandle pMsg me p =
     (case oc of
        Success \<Rightarrow>
          (case queueMutex p of
             Some owner \<Rightarrow> Inl Blocked
           | None \<Rightarrow> Inr (P_Write, p\<lparr>queueMutex := Some me\<rparr>, [Lock Success]))
      | Interrupted \<Rightarrow> Inl NotOffered
      | Failed \<Rightarrow> Inr (P_Write, p, [Lock Failed]))"
| "taosScheduleTask oc P_Write qhandle pMsg me p =
     (if oc \<noteq> Success then Inl NotOffered
      else case queue p of
        None \<Rightarrow> Inl NullDeref
      | Some slots \<Rightarrow>
          if 0 \<le> emptySlot p \<and> nat (emptySlot p) < length slots
          then Inr (P_Advance,
                    p\<lparr>queue := Some (slots[nat (emptySlot p) := pMsg])\<rparr>,
                    [SlotWrite (nat (emptySlot p)) pMsg])
          else Inl OutOfRange)"
| "taosScheduleTask oc P_Advance qhandle pMsg me p =
     (if oc \<noteq> Success then Inl NotOffered
      else if queueSize p = 0 then Inl DivByZero
      else Inr (P_Unlock,
                p\<lparr>emptySlot := int32 (emptySlot p + 1) smod queueSize p\<rparr>,
                [AdvanceEmpty (int32 (emptySlot p + 1) smod queueSize p)]))"
| "taosScheduleTask oc P_Unlock qhandle pMsg me p =
     (case oc of
        Success \<Rightarrow> Inr (P_Post, p\<lparr>queueMutex := None\<rparr>, [Unlock Success])
      | Interrupted \<Rightarrow> Inl NotOffered
      | Failed \<Rightarrow> Inr (P_Post, p, [Unlock Failed]))"
| "taosScheduleTask oc P_Post qhandle pMsg me p =
     (case oc of
        Success \<Rightarrow> Inr (P_Return, p\<lparr>fullSem := fullSem p + 1\<rparr>, [SemPost FullSem Success])
      | Interrupted \<Rightarrow> Inl NotOffered
      | Failed \<Rightarrow> Inr (P_Return, p, [SemPost FullSem Failed]))"
| "taosScheduleTask oc P_Return qhandle pMsg me p =
     (if oc \<noteq> Success then Inl NotOffered
      else Inr (P_Done, p, [Return 0]))"
| "taosScheduleTask oc P_Done qhandle pMsg me p = Inl Halted"

subsection \<open>Threads and schedules\<close>

text \<open>
  A worker thread is its program point and its local \<open>msg\<close>. A client thread calls
  \<open>taosScheduleTask\<close> once for each (handle, record) pair of its list, one call after
  the other; the head of the list is the call in progress.
\<close>

datatype thread =
    Worker wpc SSchedMsg
  | Producer ppc "(addr \<times> SSchedMsg) list"

record sys =
  sched :: SSchedQueue
  threads :: "thread list"
  trace :: "(nat \<times> event) list"

definition step :: "nat \<Rightarrow> outcome \<Rightarrow> sys \<Rightarrow> fault + sys" where
  "step t oc s =
     (if length (threads s) \<le> t then Inl NoSuchThread
      else case threads s ! t of
        Worker pc msg \<Rightarrow>
          (case taosProcessSchedQueue oc pc msg t (sched s) of
             Inl f \<Rightarrow> Inl f
           | Inr (pc', msg', p', evs) \<Rightarrow>
               Inr (s\<lparr>sched := p',
                       threads := (threads s)[t := Worker pc' msg'],
                       trace := trace s @ map (Pair t) evs\<rparr>))
      | Producer pc calls \<Rightarrow>
          (case calls of
             [] \<Rightarrow> Inl Halted
           | (qhandle, pMsg) # rest \<Rightarrow>
               (case taosScheduleTask oc pc qhandle pMsg t (sched s) of
                  Inl f \<Rightarrow> Inl f
                | Inr (pc', p', evs) \<Rightarrow>
                    Inr (s\<lparr>sched := p',
                            threads := (threads s)
                              [t := if pc' = P_Done then Producer P_Entry rest
                                    else Producer pc' calls],
                            trace := trace s @ map (Pair t) evs\<rparr>))))"

fun exec :: "(nat \<times> outcome) list \<Rightarrow> sys \<Rightarrow> fault + sys" where
  "exec [] s = Inr s"
| "exec ((t, oc) # rest) s =
     (case step t oc s of Inl f \<Rightarrow> Inl f | Inr s' \<Rightarrow> exec rest s')"

text \<open>The values \<open>taosScheduleTask\<close> has returned so far, and the records written to and
  read from the slots, each in the order of the trace.\<close>

fun returned :: "(nat \<times> event) list \<Rightarrow> int list" where
  "returned [] = []"
| "returned ((t, Return v) # es) = v # returned es"
| "returned (e # es) = returned es"

fun written :: "(nat \<times> event) list \<Rightarrow> SSchedMsg list" where
  "written [] = []"
| "written ((t, SlotWrite i m) # es) = m # written es"
| "written (e # es) = written es"

fun taken :: "(nat \<times> event) list \<Rightarrow> SSchedMsg list" where
  "taken [] = []"
| "taken ((t, SlotRead i m) # es) = m # taken es"
| "taken (e # es) = taken es"

subsection \<open>Life cycle: the heap and the resource ledger\<close>

text \<open>
  The operating-system resources a scheduler object uses. The slot buffer, the thread
  table, the mutex and the semaphores belong to the object at the given address;
  a thread is known by its identifier and a timer registration by its token.
\<close>

datatype resource =
    Queue addr
  | ThreadTable addr
  | Mutex addr
  | Semaphore addr sem
  | Thread addr
  | Timer addr

datatype callback = DumpSchedulerStatus

datatype logrec =
    UError string
  | UTraceInit string int
  | UTraceDump string int int
  | TmrReset callback int addr addr
  | TmrStop addr

text \<open>
  The world of the life-cycle functions: the live scheduler objects, the highest address
  or identifier handed out so far, the resources in use, the threads with a pending
  cancellation request, the resources that were destroyed, freed, cancelled or joined
  while not in use (each such call is undefined behaviour in C), and the log.
\<close>

record world =
  heap :: "addr \<Rightarrow> SSchedQueue option"
  brk :: addr
  live :: "resource set"
  cancelled :: "addr set"
  misused :: "resource list"
  oslog :: "logrec list"

text \<open>What \<open>calloc(sizeof(SSchedQueue), 1)\<close> returns: every field zero.\<close>

definition zeroSched :: SSchedQueue where
  "zeroSched = \<lparr>label = [], emptySem = 0, fullSem = 0, queueMutex = None,
     fullSlot = 0, emptySlot = 0, queueSize = 0, numOfThreads = 0,
     qthread = None, queue = None, pTmrCtrl = NULL, pTimer = NULL\<rparr>"

definition uLog :: "logrec \<Rightarrow> world \<Rightarrow> world" where
  "uLog r w = w\<lparr>oslog := oslog w @ [r]\<rparr>"

definition poke :: "addr \<Rightarrow> (SSchedQueue \<Rightarrow> SSchedQueue) \<Rightarrow> world \<Rightarrow> world" where
  "poke a f w = w\<lparr>heap := (heap w)(a := map_option f (heap w a))\<rparr>"

definition acquire :: "resource \<Rightarrow> world \<Rightarrow> world" where
  "acquire r w = w\<lparr>live := insert r (live w)\<rparr>"

text \<open>\<open>free\<close>, \<open>tsem_destroy\<close>, \<open>pthread_mutex_destroy\<close>, \<open>taosTmrStopA\<close>: the resource
  leaves the ledger; when it was not there the call is recorded as a misuse.\<close>

definition release :: "resource \<Rightarrow> world \<Rightarrow> world" where
  "release r w =
     (if r \<in> live w then w\<lparr>live := live w - {r}\<rparr>
      else w\<lparr>misused := misused w @ [r]\<rparr>)"

definition pthread_cancel :: "addr \<Rightarrow> world \<Rightarrow> world" where
  "pthread_cancel tid w =
     (if Thread tid \<in> live w then w\<lparr>cancelled := insert tid (cancelled w)\<rparr>
      else w\<lparr>misused := misused w @ [Thread tid]\<rparr>)"

text \<open>
  \<open>pthread_join\<close> returns when the thread has terminated. A worker never leaves its
  loop, so it terminates only after a cancellation request, at its next cancellation
  point (the wait on \<open>fullSem\<close> is one); joining a worker that was not cancelled blocks.
\<close>

definition pthread_join :: "addr \<Rightarrow> world \<Rightarrow> fault + world" where
  "pthread_join tid w =
     (if Thread tid \<in> live w then
        if tid \<in> cancelled w
        then Inr (w\<lparr>live := live w - {Thread tid}, cancelled := cancelled w - {tid}\<rparr>)
        else Inl Blocked
      else Inr (w\<lparr>misused := misused w @ [Thread tid]\<rparr>))"

fun join_all :: "addr list \<Rightarrow> world \<Rightarrow> fault + world" where
  "join_all [] w = Inr w"
| "join_all (tid # tids) w =
     (case pthread_join tid w of Inl f \<Rightarrow> Inl f | Inr w' \<Rightarrow> join_all tids w')"

text \<open>The entries \<open>qthread[i]\<close>, \<open>i < numOfThreads\<close>, that are not zero: the threads the
  two loops of \<open>taosCleanUpScheduler\<close> cancel and join.\<close>

definition started :: "SSchedQueue \<Rightarrow> fault + addr list" where
  "started pSched =
     (if numOfThreads pSched \<le> 0 then Inr []
      else case qthread pSched of
        None \<Rightarrow> Inl NullDeref
      | Some tab \<Rightarrow>
          if nat (numOfThreads pSched) \<le> length tab
          then Inr (filter (\<lambda>tid. tid \<noteq> NULL) (take (nat (numOfThreads pSched)) tab))
          else Inl OutOfRange)"

text \<open>Lines 197 to 207 of \<open>taosCleanUpScheduler\<close>: both semaphores and the mutex are
  destroyed, the timer is stopped if one is registered, the two arrays are freed if
  their pointers are not \<open>NULL\<close>, and the object is freed.\<close>

definition destroy_rest :: "addr \<Rightarrow> SSchedQueue \<Rightarrow> world \<Rightarrow> world" where
  "destroy_rest param pSched w1 =
     (let w2 = release (Semaphore param EmptySem) w1;
          w3 = release (Semaphore param FullSem) w2;
          w4 = release (Mutex param) w3;
          w5 = (if pTimer pSched \<noteq> NULL
                then uLog (TmrStop (pTimer pSched)) (release (Timer (pTimer pSched)) w4)
                else w4);
          w6 = (if queue pSched \<noteq> None then release (Queue param) w5 else w5);
          w7 = (if qthread pSched \<noteq> None then release (ThreadTable param) w6 else w6)
      in w7\<lparr>heap := (heap w7)(param := None)\<rparr>)"

text \<open>\<open>taosCleanUpScheduler\<close> (lines 184 to 208): the cancel loop, the join loop, then
  the rest. Reading through a handle whose object has been freed is the fault
  \<open>UseAfterFree\<close>.\<close>

definition taosCleanUpScheduler :: "addr \<Rightarrow> world \<Rightarrow> fault + world" where
  "taosCleanUpScheduler param w =
     (if param = NULL then Inr w
      else case heap w param of
        None \<Rightarrow> Inl UseAfterFree
      | Some pSched \<Rightarrow>
          (case started pSched of
             Inl f \<Rightarrow> Inl f
           | Inr tids \<Rightarrow>
               (case join_all tids (fold pthread_cancel tids w) of
                  Inl f \<Rightarrow> Inl f
                | Inr w1 \<Rightarrow> Inr (destroy_rest param pSched w1))))"

text \<open>The calls of \<open>taosInitScheduler\<close> that can fail; the environment says which do.\<close>

datatype init_step =
    AllocSched
  | AllocQueue
  | AllocThreadTable
  | InitMutex
  | InitSem sem
  | CreateThread nat

text \<open>The loop of lines 88 to 100, over the indices still to go; the flag is false
  when a \<open>pthread_create\<close> failed.\<close>

fun create_threads ::
  "(init_step \<Rightarrow> bool) \<Rightarrow> addr \<Rightarrow> nat list \<Rightarrow> world \<Rightarrow> fault + (bool \<times> world)" where
  "create_threads env pSched [] w = Inr (True, w)"
| "create_threads env pSched (i # rest) w =
     (if \<not> env (CreateThread i) then Inr (False, w)
      else case heap w pSched of
        None \<Rightarrow> Inl UseAfterFree
      | Some p \<Rightarrow>
          (case qthread p of
             None \<Rightarrow> Inl NullDeref
           | Some tab \<Rightarrow>
               if i < length tab
               then create_threads env pSched rest
                      (acquire (Thread (brk w + 1))
                         (w\<lparr>heap := (heap w)(pSched \<mapsto>
                                p\<lparr>qthread := Some (tab[i := brk w + 1]),
                                  numOfThreads := numOfThreads p + 1\<rparr>),
                             brk := brk w + 1\<rparr>))
               else Inl OutOfRange))"

definition fail_init :: "string \<Rightarrow> addr \<Rightarrow> world \<Rightarrow> fault + (addr \<times> world)" where
  "fail_init what pSched w =
     (case taosCleanUpScheduler pSched (uLog (UError what) w) of
        Inl f \<Rightarrow> Inl f
      | Inr w' \<Rightarrow> Inr (NULL, w'))"

text \<open>
  What \<open>pthread_mutex_init\<close> returns: 0, or an error number when it fails. POSIX error
  numbers are positive; 12 is \<open>ENOMEM\<close>.
\<close>

definition pthread_mutex_init :: "bool \<Rightarrow> int" where
  "pthread_mutex_init ok = (if ok then 0 else 12)"

text \<open>
  \<open>taosInitScheduler\<close> (lines 42 to 105). \<open>calloc\<close> fails when the environment says so,
  and always for a negative count (the count is converted to \<open>size_t\<close>). The label is
  cut to 15 characters. Line 70 tests the result of \<open>pthread_mutex_init\<close> with \<open>< 0\<close>;
  the semaphore and thread calls are tested with \<open>!= 0\<close>. \<open>emptySem\<close> starts at
  \<open>(unsigned int) queueSize\<close>.
\<close>

definition taosInitScheduler ::
  "(init_step \<Rightarrow> bool) \<Rightarrow> int \<Rightarrow> int \<Rightarrow> string \<Rightarrow> world \<Rightarrow> fault + (addr \<times> world)" where
  "taosInitScheduler env qsize nthreads lbl w =
     (if \<not> env AllocSched then Inr (NULL, uLog (UError ''no enough memory for pSched'') w)
      else
        let pSched = brk w + 1;
            w1 = w\<lparr>heap := (heap w)(pSched \<mapsto> zeroSched), brk := pSched\<rparr>
        in
        if \<not> (env AllocQueue \<and> 0 \<le> qsize)
        then fail_init ''no enough memory for queue'' pSched w1
        else
          let w2 = acquire (Queue pSched)
                     (poke pSched (\<lambda>p. p\<lparr>queue := Some (replicate (nat qsize) zeroMsg)\<rparr>) w1)
          in
          if \<not> (env AllocThreadTable \<and> 0 \<le> nthreads)
          then fail_init ''no enough memory for qthread'' pSched w2
          else
            let w3 = acquire (ThreadTable pSched)
                       (poke pSched (\<lambda>p. p\<lparr>qthread := Some (replicate (nat nthreads) NULL)\<rparr>) w2);
                w4 = poke pSched (\<lambda>p. p\<lparr>queueSize := qsize, label := take 15 lbl,
                                           fullSlot := 0, emptySlot := 0\<rparr>) w3
            in
            if pthread_mutex_init (env InitMutex) < 0
            then fail_init ''init queueMutex failed'' pSched w4
            else
              let w5 = (if env InitMutex
                        then acquire (Mutex pSched)
                               (poke pSched (\<lambda>p. p\<lparr>queueMutex := None\<rparr>) w4)
                        else w4)
              in
              if \<not> env (InitSem EmptySem)
              then fail_init ''init empty semaphore failed'' pSched w5
              else
                let w6 = acquire (Semaphore pSched EmptySem)
                           (poke pSched (\<lambda>p. p\<lparr>emptySem := nat (queueSize p mod 2 ^ 32)\<rparr>) w5)
                in
                if \<not> env (InitSem FullSem)
                then fail_init ''init full semaphore failed'' pSched w6
                else
                  let w7 = acquire (Semaphore pSched FullSem)
                             (poke pSched (\<lambda>p. p\<lparr>fullSem := 0\<rparr>) w6)
                  in
                  (case create_threads env pSched [0..<nat nthreads] w7 of
                     Inl f \<Rightarrow> Inl f
                   | Inr (all_started, w8) \<Rightarrow>
                       if all_started
                       then Inr (pSched,
                              case heap w8 pSched of
                                None \<Rightarrow> w8
                              | Some p \<Rightarrow> uLog (UTraceInit lbl (numOfThreads p)) w8)
                       else fail_init ''failed to create rpc thread'' pSched w8))"

text \<open>
  Modelled from the spec: \<open>taosTmrReset\<close> belongs to the timer service (\<open>ttimer.h\<close>),
  which is not among the sources. It registers a one-shot callback due after the given
  number of milliseconds and stores the registration's token through its last argument,
  in place of the registration stored there before. The token \<open>tok\<close> is the timer
  service's choice.
\<close>

definition taosTmrReset ::
  "addr \<Rightarrow> callback \<Rightarrow> int \<Rightarrow> addr \<Rightarrow> addr \<Rightarrow> world \<Rightarrow> fault + world" where
  "taosTmrReset tok cb mseconds param handl w =
     (case heap w param of
        None \<Rightarrow> Inl UseAfterFree
      | Some pSched \<Rightarrow>
          Inr (uLog (TmrReset cb mseconds param handl)
                 (w\<lparr>heap := (heap w)(param \<mapsto> pSched\<lparr>pTimer := tok\<rparr>),
                    live := insert (Timer tok) (live w - {Timer (pTimer pSched)})\<rparr>)))"

text \<open>\<open>taosInitSchedulerWithInfo\<close> (lines 107 to 116).\<close>

definition taosInitSchedulerWithInfo ::
  "(init_step \<Rightarrow> bool) \<Rightarrow> addr \<Rightarrow> int \<Rightarrow> int \<Rightarrow> string \<Rightarrow> addr \<Rightarrow> world
     \<Rightarrow> fault + (addr \<times> world)" where
  "taosInitSchedulerWithInfo env tok qsize nthreads lbl tmrCtrl w =
     (case taosInitScheduler env qsize nthreads lbl w of
        Inl f \<Rightarrow> Inl f
      | Inr (pSched, w1) \<Rightarrow>
          if tmrCtrl \<noteq> NULL \<and> pSched \<noteq> NULL
          then (case taosTmrReset tok DumpSchedulerStatus DUMP_SCHEDULER_TIME_WINDOW
                       pSched tmrCtrl (poke pSched (\<lambda>p. p\<lparr>pTmrCtrl := tmrCtrl\<rparr>) w1) of
                  Inl f \<Rightarrow> Inl f
                | Inr w2 \<Rightarrow> Inr (pSched, w2))
          else Inr (pSched, w1))"

text \<open>Line 217, in C's \<open>int\<close> arithmetic.\<close>

definition queued :: "SSchedQueue \<Rightarrow> int" where
  "queued pSched =
     int32 (int32 (emptySlot pSched - fullSlot pSched) + queueSize pSched)
       smod queueSize pSched"

text \<open>\<open>taosDumpSchedulerStatus\<close> (lines 211 to 223), fired by the timer service with the
  token \<open>tmrId\<close> of the registration that came due.\<close>

definition taosDumpSchedulerStatus :: "addr \<Rightarrow> addr \<Rightarrow> addr \<Rightarrow> world \<Rightarrow> fault + world" where
  "taosDumpSchedulerStatus tok qhandle tmrId w =
     (if qhandle = NULL then Inr w
      else case heap w qhandle of
        None \<Rightarrow> Inl UseAfterFree
      | Some pSched \<Rightarrow>
          if pTimer pSched = NULL \<or> pTimer pSched \<noteq> tmrId then Inr w
          else if queueSize pSched = 0 then Inl DivByZero
          else
            taosTmrReset tok DumpSchedulerStatus DUMP_SCHEDULER_TIME_WINDOW qhandle
              (pTmrCtrl pSched)
              (if queued pSched > 0
               then uLog (UTraceDump (label pSched) (queued pSched) (numOfThreads pSched)) w
               else w))"

text \<open>The occupancy as the specification writes it.\<close>

definition occupied :: "SSchedQueue \<Rightarrow> int" where
  "occupied pSched =
     (emptySlot pSched - fullSlot pSched + queueSize pSched) mod queueSize pSched"

subsection \<open>A sample scheduler\<close>

text \<open>A scheduler of capacity 2 with one worker, and a client thread that submits one
  task through the given handle; the theorems below are run on them.\<close>

definition demo_msg :: SSchedMsg where
  "demo_msg = \<lparr>fp = 7, tfp = NULL, ahandle = 3, thandle = 4, payload = 5\<rparr>"

definition demo_sched :: SSchedQueue where
  "demo_sched = \<lparr>label = ''demo'', emptySem = 2, fullSem = 0, queueMutex = None,
     fullSlot = 0, emptySlot = 0, queueSize = 2, numOfThreads = 1,
     qthread = Some [2], queue = Some [zeroMsg, zeroMsg], pTmrCtrl = NULL, pTimer = NULL\<rparr>"

definition client :: "addr \<Rightarrow> sys" where
  "client qhandle =
     \<lparr>sched = demo_sched, threads = [Producer P_Entry [(qhandle, demo_msg)], Worker W_Wait zeroMsg], trace = []\<rparr>"

text \<open>The world before any scheduler exists, and an environment in which every call
  of the constructor succeeds.\<close>

definition world0 :: world where
  "world0 = \<lparr>heap = (\<lambda>a. None), brk = 0, live = {}, cancelled = {}, misused = [],
     oslog = []\<rparr>"

text \<open>The sample scheduler as \<open>taosInitScheduler\<close> leaves the world, and the world
  after its shutdown.\<close>

definition demo_up :: world where
  "demo_up = \<lparr>heap = (\<lambda>a. None)(1 \<mapsto> demo_sched), brk = 2,
     live = {Queue 1, ThreadTable 1, Mutex 1, Semaphore 1 EmptySem, Semaphore 1 FullSem,
             Thread 2},
     cancelled = {}, misused = [], oslog = [UTraceInit ''demo'' 1]\<rparr>"

definition demo_down :: world where
  "demo_down = \<lparr>heap = (\<lambda>a. None), brk = 2, live = {}, cancelled = {}, misused = [],
     oslog = [UTraceInit ''demo'' 1]\<rparr>"

definition all_ok :: "init_step \<Rightarrow> bool" where
  "all_ok st = True"

text \<open>An environment in which the allocation of the slot buffer fails, one in which
  the initialisation of the mutex fails, and the world the constructor leaves behind in
  the first.\<close>

definition no_queue :: "init_step \<Rightarrow> bool" where
  "no_queue st = (st \<noteq> AllocQueue)"

definition no_mutex :: "init_step \<Rightarrow> bool" where
  "no_mutex st = (st \<noteq> InitMutex)"

definition demo_failed :: world where
  "demo_failed = \<lparr>heap = (\<lambda>a. None), brk = 1, live = {}, cancelled = {},
     misused = [Semaphore 1 EmptySem, Semaphore 1 FullSem, Mutex 1],
     oslog = [UError ''no enough memory for queue'']\<rparr>"

definition demo_msg2 :: SSchedMsg where
  "demo_msg2 = \<lparr>fp = NULL, tfp = 9, ahandle = 3, thandle = 4, payload = 6\<rparr>"

definition returns_of :: "(nat \<times> outcome) list \<Rightarrow> sys \<Rightarrow> int list" where
  "returns_of sch s = (case exec sch s of Inl f \<Rightarrow> [] | Inr s' \<Rightarrow> returned (trace s'))"

subsection \<open>Program order\<close>

text \<open>The events of one thread, in the order of the trace.\<close>

definition own :: "nat \<Rightarrow> (nat \<times> event) list \<Rightarrow> event list" where
  "own t tr = map snd (filter (\<lambda>e. fst e = t) tr)"

text \<open>
  The order of a worker's events as the specification gives it for one round of the
  loop: the wait on \<open>fullSem\<close> (again after an interruption), the lock, the read of a
  record, the clearing of the slot, the advance of \<open>fullSlot\<close>, the unlock, the post of
  \<open>emptySem\<close>, and then the callback of the record read. \<open>worker_next\<close> takes one
  event from a point of that order, \<open>loop_order\<close> a whole list; \<open>None\<close> is an event out
  of order.
\<close>

definition worker_next :: "wpc \<Rightarrow> SSchedMsg \<Rightarrow> event \<Rightarrow> (wpc \<times> SSchedMsg) option" where
  "worker_next pc m e =
     (case e of
        SemWait sm oc \<Rightarrow>
          if pc = W_Wait \<and> sm = FullSem
          then Some (if oc = Interrupted then W_Wait else W_Lock, m) else None
      | Lock oc \<Rightarrow> if pc = W_Lock then Some (W_Read, m) else None
      | SlotRead i m' \<Rightarrow> if pc = W_Read then Some (W_Clear, m') else None
      | SlotClear i \<Rightarrow> if pc = W_Clear then Some (W_Advance, m) else None
      | AdvanceFull f \<Rightarrow> if pc = W_Advance then Some (W_Unlock, m) else None
      | Unlock oc \<Rightarrow> if pc = W_Unlock then Some (W_Post, m) else None
      | SemPost sm oc \<Rightarrow> if pc = W_Post \<and> sm = EmptySem then Some (W_Call, m) else None
      | Invoke call \<Rightarrow> if pc = W_Call \<and> call = dispatch m then Some (W_Wait, m) else None
      | _ \<Rightarrow> None)"

fun loop_order :: "wpc \<Rightarrow> SSchedMsg \<Rightarrow> event list \<Rightarrow> (wpc \<times> SSchedMsg) option" where
  "loop_order pc m [] = Some (pc, m)"
| "loop_order pc m (e # es) =
     (case worker_next pc m e of
        None \<Rightarrow> None
      | Some (pc', m') \<Rightarrow> loop_order pc' m' es)"

text \<open>
  The order of a client's events, call after call: for a \<open>NULL\<close> handle the drop is
  logged and 0 returned; otherwise the wait on \<open>emptySem\<close> (again after an
  interruption), the lock, the write of the call's record, the advance of \<open>emptySlot\<close>,
  the unlock, the post of \<open>fullSem\<close> and the return of 0. The order has no point of its
  own for a call that has passed the \<open>NULL\<close> test and not yet waited.
\<close>

definition producer_next ::
  "ppc \<Rightarrow> (addr \<times> SSchedMsg) list \<Rightarrow> event \<Rightarrow> (ppc \<times> (addr \<times> SSchedMsg) list) option" where
  "producer_next pc calls e =
     (case calls of
        [] \<Rightarrow> None
      | c # rest \<Rightarrow>
          (case e of
             LogDropped m' \<Rightarrow>
               if pc = P_Entry \<and> fst c = NULL \<and> m' = snd c then Some (P_Return, calls) else None
           | SemWait sm oc \<Rightarrow>
               if pc = P_Entry \<and> sm = EmptySem
               then Some (if oc = Interrupted then P_Entry else P_Lock, calls) else None
           | Lock oc \<Rightarrow> if pc = P_Lock then Some (P_Write, calls) else None
           | SlotWrite i m' \<Rightarrow>
               if pc = P_Write \<and> m' = snd c then Some (P_Advance, calls) else None
           | AdvanceEmpty f \<Rightarrow> if pc = P_Advance then Some (P_Unlock, calls) else None
           | Unlock oc \<Rightarrow> if pc = P_Unlock then Some (P_Post, calls) else None
           | SemPost sm oc \<Rightarrow>
               if pc = P_Post \<and> sm = FullSem then Some (P_Return, calls) else None
           | Return v \<Rightarrow> if pc = P_Return \<and> v = 0 then Some (P_Entry, rest) else None
           | _ \<Rightarrow> None))"

fun call_order ::
  "ppc \<Rightarrow> (addr \<times> SSchedMsg) list \<Rightarrow> event list \<Rightarrow> (ppc \<times> (addr \<times> SSchedMsg) list) option" where
  "call_order pc calls [] = Some (pc, calls)"
| "call_order pc calls (e # es) =
     (case producer_next pc calls e of
        None \<Rightarrow> None
      | Some (pc', calls') \<Rightarrow> call_order pc' calls' es)"

definition waiting_as_entry :: "ppc \<Rightarrow> ppc" where
  "waiting_as_entry pc = (if pc = P_Wait then P_Entry else pc)"

subsection \<open>Invariants of the queue\<close>

text \<open>
  Where a thread stands between a semaphore wait and the matching post: a producer
  holds a permit of \<open>emptySem\<close> until it has written its slot, and has then written a
  slot that \<open>fullSem\<close> does not count yet; a worker holds a permit of \<open>fullSem\<close> until
  it has read its slot, and has then taken a record whose slot \<open>emptySem\<close> does not
  count yet.
\<close>

fun holdsEmpty :: "thread \<Rightarrow> bool" where
  "holdsEmpty (Producer pc calls) = (pc = P_Lock \<or> pc = P_Write)"
| "holdsEmpty (Worker pc msg) = False"

fun wrote :: "thread \<Rightarrow> bool" where
  "wrote (Producer pc calls) = (pc = P_Advance \<or> pc = P_Unlock \<or> pc = P_Post)"
| "wrote (Worker pc msg) = False"

fun holdsFull :: "thread \<Rightarrow> bool" where
  "holdsFull (Worker pc msg) = (pc = W_Lock \<or> pc = W_Read)"
| "holdsFull (Producer pc calls) = False"

fun took :: "thread \<Rightarrow> bool" where
  "took (Worker pc msg) = (pc = W_Clear \<or> pc = W_Advance \<or> pc = W_Unlock \<or> pc = W_Post)"
| "took (Producer pc calls) = False"

fun in_crit :: "thread \<Rightarrow> bool" where
  "in_crit (Worker pc msg) = (pc = W_Read \<or> pc = W_Clear \<or> pc = W_Advance \<or> pc = W_Unlock)"
| "in_crit (Producer pc calls) = (pc = P_Write \<or> pc = P_Advance \<or> pc = P_Unlock)"

fun unadvancedW :: "thread \<Rightarrow> nat" where
  "unadvancedW (Producer pc calls) = (if pc = P_Advance then 1 else 0)"
| "unadvancedW (Worker pc msg) = 0"

fun unadvancedR :: "thread \<Rightarrow> nat" where
  "unadvancedR (Worker pc msg) = (if pc = W_Clear \<or> pc = W_Advance then 1 else 0)"
| "unadvancedR (Producer pc calls) = 0"

definition cnt :: "(thread \<Rightarrow> bool) \<Rightarrow> thread list \<Rightarrow> int" where
  "cnt P ths = int (length (filter P ths))"

definition owner_has :: "(thread \<Rightarrow> nat) \<Rightarrow> sys \<Rightarrow> nat" where
  "owner_has f s =
     (case queueMutex (sched s) of
        None \<Rightarrow> 0
      | Some t \<Rightarrow> if t < length (threads s) then f (threads s ! t) else 0)"

definition slots_of :: "SSchedQueue \<Rightarrow> SSchedMsg list" where
  "slots_of p = (case queue p of None \<Rightarrow> [] | Some slots \<Rightarrow> slots)"

definition inv_shape :: "sys \<Rightarrow> bool" where
  "inv_shape s =
     (0 < queueSize (sched s) \<and> queueSize (sched s) < 2 ^ 31
      \<and> queue (sched s) \<noteq> None
      \<and> length (slots_of (sched s)) = nat (queueSize (sched s)))"

definition inv_mutex :: "sys \<Rightarrow> bool" where
  "inv_mutex s =
     (\<forall>t < length (threads s). in_crit (threads s ! t) = (queueMutex (sched s) = Some t))"

definition inv_sems :: "sys \<Rightarrow> bool" where
  "inv_sems s =
     (int (emptySem (sched s)) + cnt holdsEmpty (threads s) + int (length (written (trace s)))
        + cnt took (threads s)
        = queueSize (sched s) + int (length (taken (trace s)))
      \<and> int (length (written (trace s)))
        = int (length (taken (trace s))) + cnt wrote (threads s) + int (fullSem (sched s))
          + cnt holdsFull (threads s))"

definition inv_cursors :: "sys \<Rightarrow> bool" where
  "inv_cursors s =
     (0 \<le> emptySlot (sched s) \<and> emptySlot (sched s) < queueSize (sched s)
      \<and> 0 \<le> fullSlot (sched s) \<and> fullSlot (sched s) < queueSize (sched s)
      \<and> (nat (emptySlot (sched s)) + owner_has unadvancedW s) mod nat (queueSize (sched s))
          = length (written (trace s)) mod nat (queueSize (sched s))
      \<and> (nat (fullSlot (sched s)) + owner_has unadvancedR s) mod nat (queueSize (sched s))
          = length (taken (trace s)) mod nat (queueSize (sched s)))"

definition inv_slots :: "sys \<Rightarrow> bool" where
  "inv_slots s =
     (\<forall>k. length (taken (trace s)) \<le> k \<and> k < length (written (trace s)) \<longrightarrow>
          slots_of (sched s) ! (k mod nat (queueSize (sched s))) = written (trace s) ! k)"

definition inv_fifo :: "sys \<Rightarrow> bool" where
  "inv_fifo s = (taken (trace s) = take (length (taken (trace s))) (written (trace s)))"

definition queue_inv :: "sys \<Rightarrow> bool" where
  "queue_inv s = (inv_shape s \<and> inv_mutex s \<and> inv_sems s \<and> inv_cursors s \<and> inv_slots s \<and> inv_fifo s)"

definition fault_free :: "(nat \<times> outcome) list \<Rightarrow> bool" where
  "fault_free sch = (\<forall>x \<in> set sch. snd x \<noteq> Failed)"

text \<open>A system right after construction: the object \<open>taosInitScheduler\<close> built, every
  thread at its starting point, nothing traced yet.\<close>

fun idle :: "thread \<Rightarrow> bool" where
  "idle (Worker pc msg) = (pc = W_Wait)"
| "idle (Producer pc calls) = (pc = P_Entry)"

definition boot :: "SSchedQueue \<Rightarrow> thread list \<Rightarrow> sys" where
  "boot p ths = \<lparr>sched = p, threads = ths, trace = []\<rparr>"

text \<open>The number of threads between a semaphore wait and the matching post, and the
  states in which there is none (the quiescent points).\<close>

definition in_flight :: "sys \<Rightarrow> int" where
  "in_flight s =
     cnt holdsEmpty (threads s) + cnt wrote (threads s)
       + cnt holdsFull (threads s) + cnt took (threads s)"

definition quiescent :: "sys \<Rightarrow> bool" where
  "quiescent s =
     (\<forall>th \<in> set (threads s). \<not> holdsEmpty th \<and> \<not> wrote th \<and> \<not> holdsFull th \<and> \<not> took th)"

text \<open>A system with one client thread, in front of any number of workers: the records
  the client has still to write, and the shape the thread list keeps.\<close>

fun unsent :: "thread \<Rightarrow> SSchedMsg list" where
  "unsent (Producer pc calls) =
     (if pc = P_Advance \<or> pc = P_Unlock \<or> pc = P_Post \<or> pc = P_Return
      then map snd (tl calls) else map snd calls)"
| "unsent (Worker pc msg) = []"

fun valid_calls :: "thread \<Rightarrow> bool" where
  "valid_calls (Producer pc calls) = (\<forall>c \<in> set calls. fst c \<noteq> NULL)"
| "valid_calls (Worker pc msg) = False"

fun is_worker :: "thread \<Rightarrow> bool" where
  "is_worker (Worker pc msg) = True"
| "is_worker (Producer pc calls) = False"

definition inv_single :: "SSchedMsg list \<Rightarrow> sys \<Rightarrow> bool" where
  "inv_single tasks s =
     (threads s \<noteq> [] \<and> valid_calls (hd (threads s))
      \<and> (\<forall>th \<in> set (tl (threads s)). is_worker th)
      \<and> written (trace s) @ unsent (hd (threads s)) = tasks)"

subsection \<open>Handles and the ledger\<close>

text \<open>The worker threads of an object (the first \<open>numOfThreads\<close> entries of its thread
  table) and the resources it holds when fully built.\<close>

definition workers :: "SSchedQueue \<Rightarrow> addr list" where
  "workers p =
     (case qthread p of None \<Rightarrow> [] | Some tab \<Rightarrow> take (nat (numOfThreads p)) tab)"

definition resources_of :: "addr \<Rightarrow> SSchedQueue \<Rightarrow> resource set" where
  "resources_of h p =
     {Queue h, ThreadTable h, Mutex h, Semaphore h EmptySem, Semaphore h FullSem}
       \<union> Thread ` set (workers p)
       \<union> (if pTimer p \<noteq> NULL then {Timer (pTimer p)} else {})"

text \<open>What lines 197 to 206 of \<open>taosCleanUpScheduler\<close> destroy, stop or free, in that
  order.\<close>

definition relinquished :: "addr \<Rightarrow> SSchedQueue \<Rightarrow> resource list" where
  "relinquished h p =
     [Semaphore h EmptySem, Semaphore h FullSem, Mutex h]
       @ (if pTimer p \<noteq> NULL then [Timer (pTimer p)] else [])
       @ (if queue p \<noteq> None then [Queue h] else [])
       @ (if qthread p \<noteq> None then [ThreadTable h] else [])"

text \<open>A valid handle: it points to a live object whose arrays are allocated, whose
  workers are distinct running threads, and whose resources are all in use.\<close>

definition valid_handle :: "world \<Rightarrow> addr \<Rightarrow> bool" where
  "valid_handle w h =
     (h \<noteq> NULL \<and>
      (case heap w h of
         None \<Rightarrow> False
       | Some p \<Rightarrow>
           queue p \<noteq> None \<and> qthread p \<noteq> None \<and> 0 \<le> numOfThreads p
           \<and> length (workers p) = nat (numOfThreads p)
           \<and> distinct (workers p) \<and> NULL \<notin> set (workers p)
           \<and> resources_of h p \<subseteq> live w))"

text \<open>Nothing at or above the next fresh address is in use yet.\<close>

definition sane :: "world \<Rightarrow> bool" where
  "sane w =
     (\<forall>a. brk w < a \<longrightarrow>
        heap w a = None \<and> a \<notin> cancelled w
        \<and> Queue a \<notin> live w \<and> ThreadTable a \<notin> live w \<and> Mutex a \<notin> live w
        \<and> Semaphore a EmptySem \<notin> live w \<and> Semaphore a FullSem \<notin> live w
        \<and> Thread a \<notin> live w)"

text \<open>The environment lets every call of the constructor succeed, for a queue of
  \<open>qsize\<close> slots and \<open>nthreads\<close> workers.\<close>

definition succeeds :: "(init_step \<Rightarrow> bool) \<Rightarrow> int \<Rightarrow> int \<Rightarrow> bool" where
  "succeeds env qsize nthreads =
     (env AllocSched \<and> env AllocQueue \<and> 0 \<le> qsize \<and> env AllocThreadTable \<and> 0 \<le> nthreads
      \<and> env InitMutex \<and> env (InitSem EmptySem) \<and> env (InitSem FullSem)
      \<and> (\<forall>i < nat nthreads. env (CreateThread i)))"

text \<open>The semaphores and the mutex that the constructor had not initialised when it
  gave up, in the order in which \<open>taosCleanUpScheduler\<close> destroys them (for an
  environment in which the mutex initialisation succeeds).\<close>

definition never_initialised :: "(init_step \<Rightarrow> bool) \<Rightarrow> int \<Rightarrow> int \<Rightarrow> addr \<Rightarrow> resource list" where
  "never_initialised env qsize nthreads a =
     (if \<not> env AllocSched then []
      else if \<not> (env AllocQueue \<and> 0 \<le> qsize) \<or> \<not> (env AllocThreadTable \<and> 0 \<le> nthreads)
      then [Semaphore a EmptySem, Semaphore a FullSem, Mutex a]
      else if \<not> env (InitSem EmptySem) then [Semaphore a EmptySem, Semaphore a FullSem]
      else if \<not> env (InitSem FullSem) then [Semaphore a FullSem]
      else [])"

text \<open>The object the constructor has built when it starts the workers, and the world
  at that point.\<close>

definition built :: "int \<Rightarrow> int \<Rightarrow> string \<Rightarrow> SSchedQueue" where
  "built Q n lbl = zeroSched\<lparr>queue := Some (replicate (nat Q) zeroMsg),
      qthread := Some (replicate (nat n) NULL), queueSize := Q, label := take 15 lbl,
      emptySem := nat (Q mod 2 ^ 32)\<rparr>"

definition armed :: "int \<Rightarrow> int \<Rightarrow> string \<Rightarrow> world \<Rightarrow> world" where
  "armed Q n lbl w =
     w\<lparr>heap := (heap w)(Suc (brk w) \<mapsto> built Q n lbl), brk := Suc (brk w),
       live := live w \<union> {Queue (Suc (brk w)), ThreadTable (Suc (brk w)), Mutex (Suc (brk w)),
                 Semaphore (Suc (brk w)) EmptySem, Semaphore (Suc (brk w)) FullSem}\<rparr>"

definition demo_schedule :: "(nat \<times> outcome) list" where
  "demo_schedule =
     replicate 8 (0, Success) @ replicate 8 (1, Success)
       @ replicate 8 (0, Success) @ replicate 8 (2, Success)"

section \<open>Properties\<close>

subsection \<open>Arithmetic and traces\<close>

lemma int32_id: "- (2 ^ 31) \<le> x \<Longrightarrow> x < 2 ^ 31 \<Longrightarrow> int32 x = x"
  by (simp add: int32_def signed_take_bit_int_eq_self)

lemma smod_nonneg: "0 \<le> (a::int) \<Longrightarrow> 0 < b \<Longrightarrow> a smod b = a mod b"
  by (simp add: signed_modulo_int_def sgn_if)

lemma advance_eq:
  "0 \<le> c \<Longrightarrow> c < Q \<Longrightarrow> Q < 2 ^ 31 \<Longrightarrow> int32 (c + 1) smod Q = (c + 1) mod Q"
  by (simp add: int32_id smod_nonneg)

lemma written_append: "written (xs @ ys) = written xs @ written ys"
  by (induction xs rule: written.induct) simp_all

lemma taken_append: "taken (xs @ ys) = taken xs @ taken ys"
  by (induction xs rule: taken.induct) simp_all

lemma returned_append: "returned (xs @ ys) = returned xs @ returned ys"
  by (induction xs rule: returned.induct) simp_all


lemma returned_map_Pair_le:
  "taosScheduleTask oc pc h m me p = Inr (pc', p', evs) \<Longrightarrow>
   returned (map (Pair t) evs) = (if pc' = P_Done then [0] else [])"
  by (cases pc; cases oc) (auto split: option.splits if_splits)

lemma returned_worker:
  "taosProcessSchedQueue oc pc lm me p = Inr (pc', lm', p', evs) \<Longrightarrow>
   returned (map (Pair t) evs) = []"
  by (cases pc; cases oc) (auto split: option.splits if_splits)

lemma step_returned:
  assumes "step t oc s = Inr s'"
  shows "set (returned (trace s')) \<subseteq> set (returned (trace s)) \<union> {0}"
proof (cases "threads s ! t")
  case (Worker pc lm)
  with assms show ?thesis
    by (auto simp: step_def returned_append split: if_splits sum.splits dest!: returned_worker [where t = t])
next
  case (Producer pc calls)
  with assms show ?thesis
    by (auto simp: step_def returned_append split: if_splits sum.splits list.splits
        dest!: returned_map_Pair_le [where t = t])
qed

lemma exec_returned:
  "exec sch s = Inr s' \<Longrightarrow> set (returned (trace s')) \<subseteq> set (returned (trace s)) \<union> {0}"
proof (induction sch arbitrary: s)
  case Nil
  then show ?case by auto
next
  case (Cons a sch)
  obtain t oc where a: "a = (t, oc)" by (cases a)
  from Cons.prems a obtain s1 where s1: "step t oc s = Inr s1" and r: "exec sch s1 = Inr s'"
    by (auto split: sum.splits)
  from Cons.IH [OF r] step_returned [OF s1] show ?case by blast
qed

text \<open>The shape of every step: one thread, the object, the new events.\<close>

lemma step_shape:
  assumes "step t oc s = Inr s'"
  obtains (worker) pc lm pc' lm' p' evs where
      "t < length (threads s)" "threads s ! t = Worker pc lm"
      "taosProcessSchedQueue oc pc lm t (sched s) = Inr (pc', lm', p', evs)"
      "s' = \<lparr>sched = p', threads = (threads s)[t := Worker pc' lm'],
             trace = trace s @ map (Pair t) evs\<rparr>"
    | (producer) pc h m rest pc' p' evs where
      "t < length (threads s)" "threads s ! t = Producer pc ((h, m) # rest)"
      "taosScheduleTask oc pc h m t (sched s) = Inr (pc', p', evs)"
      "s' = \<lparr>sched = p', threads = (threads s)[t := if pc' = P_Done then Producer P_Entry rest
                 else Producer pc' ((h, m) # rest)],
             trace = trace s @ map (Pair t) evs\<rparr>"
  using assms
  by (auto simp: step_def split: if_splits thread.splits sum.splits list.splits)

subsection \<open>Every thread keeps its program order\<close>

lemma own_append: "own t (xs @ ys) = own t xs @ own t ys"
  by (simp add: own_def)

lemma own_map_Pair: "own t (map (Pair t') evs) = (if t = t' then evs else [])"
  by (induction evs) (auto simp: own_def)

lemma loop_order_append:
  "loop_order pc m (xs @ ys) =
     (case loop_order pc m xs of None \<Rightarrow> None | Some (pc', m') \<Rightarrow> loop_order pc' m' ys)"
  by (induction xs arbitrary: pc m) (auto split: option.splits)

lemma call_order_append:
  "call_order pc calls (xs @ ys) =
     (case call_order pc calls xs of None \<Rightarrow> None | Some (pc', calls') \<Rightarrow> call_order pc' calls' ys)"
  by (induction xs arbitrary: pc calls) (auto split: option.splits)

lemma worker_step_order:
  "taosProcessSchedQueue oc pc lm t p = Inr (pc', lm', p', evs) \<Longrightarrow>
   loop_order pc lm evs = Some (pc', lm')"
  by (cases pc; cases oc) (auto simp: worker_next_def split: if_splits option.splits)

lemma producer_step_order:
  "taosScheduleTask oc pc h m t p = Inr (pc', p', evs) \<Longrightarrow>
   call_order (waiting_as_entry pc) ((h, m) # rest) evs =
     Some (if pc' = P_Done then (P_Entry, rest) else (waiting_as_entry pc', (h, m) # rest))"
  by (cases pc; cases oc)
    (auto simp: waiting_as_entry_def producer_next_def split: if_splits option.splits)

lemma step_loop_order:
  assumes t: "t < length (threads s)" "threads s ! t = Worker pc m"
    and o: "loop_order pc0 m0 (own t (trace s)) = Some (pc, m)"
    and st: "step t' oc s = Inr s'"
  shows "\<exists>pc' m'. threads s' ! t = Worker pc' m'
     \<and> loop_order pc0 m0 (own t (trace s')) = Some (pc', m')"
  using st
proof (cases rule: step_shape)
  case (worker pc1 lm pc' lm' p' evs)
  show ?thesis
  proof (cases "t' = t")
    case True
    with worker t have "pc1 = pc" "lm = m" by simp_all
    with worker(3) have "loop_order pc m evs = Some (pc', lm')" by (simp add: worker_step_order)
    with worker(4) True t o show ?thesis
      by (simp add: own_append own_map_Pair loop_order_append)
  next
    case False
    with worker t o show ?thesis by (simp add: own_append own_map_Pair)
  qed
next
  case (producer pc1 h m1 rest pc' p' evs)
  with t have "t' \<noteq> t" by auto
  with producer t o show ?thesis by (simp add: own_append own_map_Pair)
qed

lemma exec_loop_order:
  "t < length (threads s) \<Longrightarrow> threads s ! t = Worker pc m \<Longrightarrow>
   loop_order pc0 m0 (own t (trace s)) = Some (pc, m) \<Longrightarrow> exec sch s = Inr s' \<Longrightarrow>
   \<exists>pc' m'. threads s' ! t = Worker pc' m'
     \<and> loop_order pc0 m0 (own t (trace s')) = Some (pc', m')"
proof (induction sch arbitrary: s pc m)
  case Nil
  then show ?case by simp
next
  case (Cons a sch)
  obtain t' oc where a: "a = (t', oc)" by (cases a)
  from Cons.prems a obtain s1 where s1: "step t' oc s = Inr s1" and r: "exec sch s1 = Inr s'"
    by (auto split: sum.splits)
  from step_loop_order [OF Cons.prems(1,2,3) s1] obtain pc1 m1 where
    1: "threads s1 ! t = Worker pc1 m1" "loop_order pc0 m0 (own t (trace s1)) = Some (pc1, m1)"
    by blast
  have "length (threads s1) = length (threads s)"
    using s1 by (cases rule: step_shape) simp_all
  with Cons.prems(1) have "t < length (threads s1)" by simp
  from Cons.IH [OF this 1 r] show ?case .
qed

lemma step_call_order:
  assumes t: "t < length (threads s)" "threads s ! t = Producer pc calls"
    and o: "call_order P_Entry calls0 (own t (trace s)) = Some (waiting_as_entry pc, calls)"
    and st: "step t' oc s = Inr s'"
  shows "\<exists>pc' calls'. threads s' ! t = Producer pc' calls'
     \<and> call_order P_Entry calls0 (own t (trace s')) = Some (waiting_as_entry pc', calls')"
  using st
proof (cases rule: step_shape)
  case (worker pc1 lm pc' lm' p' evs)
  with t have "t' \<noteq> t" by auto
  with worker t o show ?thesis by (simp add: own_append own_map_Pair)
next
  case (producer pc1 h m1 rest pc' p' evs)
  show ?thesis
  proof (cases "t' = t")
    case True
    with producer t have e: "pc1 = pc" "calls = (h, m1) # rest" by simp_all
    from producer_step_order [OF producer(3), of rest] e
    have "call_order (waiting_as_entry pc) calls evs =
        Some (if pc' = P_Done then (P_Entry, rest) else (waiting_as_entry pc', (h, m1) # rest))"
      by simp
    with producer(4) True t o e show ?thesis
      by (auto simp: own_append own_map_Pair call_order_append waiting_as_entry_def)
  next
    case False
    with producer t o show ?thesis by (simp add: own_append own_map_Pair)
  qed
qed

lemma exec_call_order:
  "t < length (threads s) \<Longrightarrow> threads s ! t = Producer pc calls \<Longrightarrow>
   call_order P_Entry calls0 (own t (trace s)) = Some (waiting_as_entry pc, calls) \<Longrightarrow>
   exec sch s = Inr s' \<Longrightarrow>
   \<exists>pc' calls'. threads s' ! t = Producer pc' calls'
     \<and> call_order P_Entry calls0 (own t (trace s')) = Some (waiting_as_entry pc', calls')"
proof (induction sch arbitrary: s pc calls)
  case Nil
  then show ?case by simp
next
  case (Cons a sch)
  obtain t' oc where a: "a = (t', oc)" by (cases a)
  from Cons.prems a obtain s1 where s1: "step t' oc s = Inr s1" and r: "exec sch s1 = Inr s'"
    by (auto split: sum.splits)
  from step_call_order [OF Cons.prems(1,2,3) s1] obtain pc1 calls1 where
    1: "threads s1 ! t = Producer pc1 calls1"
      "call_order P_Entry calls0 (own t (trace s1)) = Some (waiting_as_entry pc1, calls1)"
    by blast
  have "length (threads s1) = length (threads s)"
    using s1 by (cases rule: step_shape) simp_all
  with Cons.prems(1) have "t < length (threads s1)" by simp
  from Cons.IH [OF this 1 r] show ?case .
qed

subsection \<open>The dequeue and enqueue steps\<close>

text \<open>
  Claim C3 (dequeue step contract). A worker at the top of its loop, with a task
  announced on \<open>fullSem\<close> and the mutex free, runs its next seven steps in this order:
  it takes the permit of \<open>fullSem\<close>, locks, reads the record at index \<open>fullSlot\<close>,
  clears that slot to the zero record, sets \<open>fullSlot\<close> to \<open>(fullSlot + 1) mod Q\<close>,
  unlocks and posts \<open>emptySem\<close>. At that point \<open>emptySem\<close> has been raised and no
  callback has run; the callback for the record read is the worker's next step. And in
  every execution, whatever the other threads do in between and whatever the operating
  system reports, the events of a worker follow that order round after round: each
  callback comes right after the worker's post of \<open>emptySem\<close> and is the dispatch of the
  record it read in the same round.
\<close>

theorem C3_dequeue_step_contract:
  "(t < length (threads s) \<and> threads s ! t = Worker W_Wait lm
      \<and> 0 < fullSem (sched s) \<and> queueMutex (sched s) = None
      \<and> queue (sched s) = Some slots
      \<and> 0 \<le> fullSlot (sched s) \<and> fullSlot (sched s) < queueSize (sched s)
      \<and> length slots = nat (queueSize (sched s)) \<and> queueSize (sched s) < 2 ^ 31 \<longrightarrow>
    (let i = nat (fullSlot (sched s));
         f' = (fullSlot (sched s) + 1) mod queueSize (sched s);
         s7 = s\<lparr>sched := (sched s)\<lparr>fullSem := fullSem (sched s) - 1,
                     queue := Some (slots[i := zeroMsg]),
                     fullSlot := f',
                     emptySem := emptySem (sched s) + 1\<rparr>,
                 threads := (threads s)[t := Worker W_Call (slots ! i)],
                 trace := trace s @ map (Pair t)
                   [SemWait FullSem Success, Lock Success, SlotRead i (slots ! i),
                    SlotClear i, AdvanceFull f', Unlock Success,
                    SemPost EmptySem Success]\<rparr>
     in exec (replicate 7 (t, Success)) s = Inr s7
        \<and> step t Success s7 =
            Inr (s7\<lparr>threads := (threads s)[t := Worker W_Wait (slots ! i)],
                    trace := trace s7 @ [(t, Invoke (dispatch (slots ! i)))]\<rparr>)))
   \<and> (t < length ths \<and> ths ! t = Worker W_Wait lm \<and> exec sch (boot p ths) = Inr s' \<longrightarrow>
        (\<exists>pc m. threads s' ! t = Worker pc m
           \<and> loop_order W_Wait lm (own t (trace s')) = Some (pc, m)))"
proof (intro conjI impI)
  assume "t < length ths \<and> ths ! t = Worker W_Wait lm \<and> exec sch (boot p ths) = Inr s'"
  then have "t < length (threads (boot p ths))" "threads (boot p ths) ! t = Worker W_Wait lm"
    "loop_order W_Wait lm (own t (trace (boot p ths))) = Some (W_Wait, lm)"
    "exec sch (boot p ths) = Inr s'"
    by (simp_all add: boot_def own_def)
  then show "\<exists>pc m. threads s' ! t = Worker pc m
      \<and> loop_order W_Wait lm (own t (trace s')) = Some (pc, m)"
    by (rule exec_loop_order)
qed (simp add: Let_def numeral_eq_Suc step_def advance_eq)

theorem C3_dequeue_step_contract_witness:
  "exec (replicate 7 (1, Success))
     ((client 1)\<lparr>sched := demo_sched\<lparr>fullSem := 1, queue := Some [demo_msg, zeroMsg],
                                     emptySlot := 1, emptySem := 1\<rparr>\<rparr>) =
     Inr \<lparr>sched = demo_sched\<lparr>fullSem := 0, queue := Some [zeroMsg, zeroMsg],
                               emptySlot := 1, fullSlot := 1, emptySem := 2\<rparr>,
          threads = [Producer P_Entry [(1, demo_msg)], Worker W_Call demo_msg],
          trace = map (Pair 1)
            [SemWait FullSem Success, Lock Success, SlotRead 0 demo_msg, SlotClear 0,
             AdvanceFull 1, Unlock Success, SemPost EmptySem Success]\<rparr>
   \<and> (\<exists>s'. exec (replicate 8 (0, Success) @ replicate 8 (1, Success))
               (boot demo_sched (threads (client 1))) = Inr s'
          \<and> loop_order W_Wait zeroMsg (own 1 (trace s')) = Some (W_Wait, demo_msg))"
proof -
  have a: "exec (replicate 7 (1, Success))
     ((client 1)\<lparr>sched := demo_sched\<lparr>fullSem := 1, queue := Some [demo_msg, zeroMsg],
                                     emptySlot := 1, emptySem := 1\<rparr>\<rparr>) =
     Inr \<lparr>sched = demo_sched\<lparr>fullSem := 0, queue := Some [zeroMsg, zeroMsg],
                               emptySlot := 1, fullSlot := 1, emptySem := 2\<rparr>,
          threads = [Producer P_Entry [(1, demo_msg)], Worker W_Call demo_msg],
          trace = map (Pair 1)
            [SemWait FullSem Success, Lock Success, SlotRead 0 demo_msg, SlotClear 0,
             AdvanceFull 1, Unlock Success, SemPost EmptySem Success]\<rparr>"
    using C3_dequeue_step_contract
      [of 1 "(client 1)\<lparr>sched := demo_sched\<lparr>fullSem := 1, queue := Some [demo_msg, zeroMsg],
                                             emptySlot := 1, emptySem := 1\<rparr>\<rparr>"
          zeroMsg "[demo_msg, zeroMsg]"]
    by (simp add: client_def demo_sched_def Let_def)
  have "\<exists>s'. exec (replicate 8 (0, Success) @ replicate 8 (1, Success))
               (boot demo_sched (threads (client 1))) = Inr s'
          \<and> threads s' ! 1 = Worker W_Wait demo_msg"
    by (simp add: boot_def client_def step_def numeral_eq_Suc demo_sched_def int32_def
        smod_nonneg)
  then obtain s' where r: "exec (replicate 8 (0, Success) @ replicate 8 (1, Success))
               (boot demo_sched (threads (client 1))) = Inr s'"
    and th: "threads s' ! 1 = Worker W_Wait demo_msg" by blast
  from C3_dequeue_step_contract
      [of 1 _ zeroMsg _ "threads (client 1)"
          "replicate 8 (0, Success) @ replicate 8 (1, Success)" demo_sched s'] r th
  have "loop_order W_Wait zeroMsg (own 1 (trace s')) = Some (W_Wait, demo_msg)"
    by (simp add: client_def)
  with a r show ?thesis by blast
qed

text \<open>
  Claim C4 (enqueue step contract). A call of \<open>taosScheduleTask\<close> with a handle that is
  not \<open>NULL\<close>, with a free slot announced on \<open>emptySem\<close> and the mutex free, runs in
  this order: it takes the permit of \<open>emptySem\<close>, locks, copies the record into slot
  \<open>emptySlot\<close>, sets \<open>emptySlot\<close> to \<open>(emptySlot + 1) mod Q\<close>, unlocks, posts
  \<open>fullSem\<close> and returns 0. Past the wait it returns 0 whatever the lock, the unlock
  and the post report. And in every execution the events of a client follow that order
  call after call, each write being the record of the call and each return being 0.
\<close>

theorem C4_enqueue_step_contract:
  "(t < length (threads s) \<and> threads s ! t = Producer P_Entry ((qhandle, pMsg) # rest)
      \<and> qhandle \<noteq> NULL
      \<and> 0 < emptySem (sched s) \<and> queueMutex (sched s) = None
      \<and> queue (sched s) = Some slots
      \<and> 0 \<le> emptySlot (sched s) \<and> emptySlot (sched s) < queueSize (sched s)
      \<and> length slots = nat (queueSize (sched s)) \<and> queueSize (sched s) < 2 ^ 31 \<longrightarrow>
    exec (replicate 8 (t, Success)) s =
      Inr (s\<lparr>sched := (sched s)\<lparr>emptySem := emptySem (sched s) - 1,
                  queue := Some (slots[nat (emptySlot (sched s)) := pMsg]),
                  emptySlot := (emptySlot (sched s) + 1) mod queueSize (sched s),
                  fullSem := fullSem (sched s) + 1\<rparr>,
              threads := (threads s)[t := Producer P_Entry rest],
              trace := trace s @ map (Pair t)
                [SemWait EmptySem Success, Lock Success,
                 SlotWrite (nat (emptySlot (sched s))) pMsg,
                 AdvanceEmpty ((emptySlot (sched s) + 1) mod queueSize (sched s)),
                 Unlock Success, SemPost FullSem Success, Return 0]\<rparr>)
    \<and> (\<forall>o1 o2 o3. o1 \<noteq> Interrupted \<and> o2 \<noteq> Interrupted \<and> o3 \<noteq> Interrupted \<longrightarrow>
         (case exec [(t, Success), (t, Success), (t, o1), (t, Success), (t, Success),
                     (t, o2), (t, o3), (t, Success)] s of
            Inl f \<Rightarrow> False
          | Inr s' \<Rightarrow> returned (trace s') = returned (trace s) @ [0]
              \<and> written (trace s') = written (trace s) @ [pMsg])))
   \<and> (t < length ths \<and> ths ! t = Producer P_Entry calls \<and> exec sch (boot p ths) = Inr s' \<longrightarrow>
        (\<exists>pc calls'. threads s' ! t = Producer pc calls'
           \<and> call_order P_Entry calls (own t (trace s')) = Some (waiting_as_entry pc, calls')))"
proof (intro conjI impI)
  assume "t < length ths \<and> ths ! t = Producer P_Entry calls \<and> exec sch (boot p ths) = Inr s'"
  then have "t < length (threads (boot p ths))" "threads (boot p ths) ! t = Producer P_Entry calls"
    "call_order P_Entry calls (own t (trace (boot p ths))) = Some (waiting_as_entry P_Entry, calls)"
    "exec sch (boot p ths) = Inr s'"
    by (simp_all add: boot_def own_def waiting_as_entry_def)
  then show "\<exists>pc calls'. threads s' ! t = Producer pc calls'
      \<and> call_order P_Entry calls (own t (trace s')) = Some (waiting_as_entry pc, calls')"
    by (rule exec_call_order)
next
  assume A: "t < length (threads s) \<and> threads s ! t = Producer P_Entry ((qhandle, pMsg) # rest)
      \<and> qhandle \<noteq> NULL
      \<and> 0 < emptySem (sched s) \<and> queueMutex (sched s) = None
      \<and> queue (sched s) = Some slots
      \<and> 0 \<le> emptySlot (sched s) \<and> emptySlot (sched s) < queueSize (sched s)
      \<and> length slots = nat (queueSize (sched s)) \<and> queueSize (sched s) < 2 ^ 31"
  then show "exec (replicate 8 (t, Success)) s =
      Inr (s\<lparr>sched := (sched s)\<lparr>emptySem := emptySem (sched s) - 1,
                  queue := Some (slots[nat (emptySlot (sched s)) := pMsg]),
                  emptySlot := (emptySlot (sched s) + 1) mod queueSize (sched s),
                  fullSem := fullSem (sched s) + 1\<rparr>,
              threads := (threads s)[t := Producer P_Entry rest],
              trace := trace s @ map (Pair t)
                [SemWait EmptySem Success, Lock Success,
                 SlotWrite (nat (emptySlot (sched s))) pMsg,
                 AdvanceEmpty ((emptySlot (sched s) + 1) mod queueSize (sched s)),
                 Unlock Success, SemPost FullSem Success, Return 0]\<rparr>)"
    by (simp add: numeral_eq_Suc step_def advance_eq)
  have "(case exec [(t, Success), (t, Success), (t, o1), (t, Success), (t, Success),
                     (t, o2), (t, o3), (t, Success)] s of
            Inl f \<Rightarrow> False
          | Inr s' \<Rightarrow> returned (trace s') = returned (trace s) @ [0]
              \<and> written (trace s') = written (trace s) @ [pMsg])"
    if "o1 \<noteq> Interrupted" "o2 \<noteq> Interrupted" "o3 \<noteq> Interrupted" for o1 o2 o3
    using A that
    by (cases o1; cases o2; cases o3)
      (simp_all add: step_def advance_eq returned_append written_append)
  then show "\<forall>o1 o2 o3. o1 \<noteq> Interrupted \<and> o2 \<noteq> Interrupted \<and> o3 \<noteq> Interrupted \<longrightarrow>
         (case exec [(t, Success), (t, Success), (t, o1), (t, Success), (t, Success),
                     (t, o2), (t, o3), (t, Success)] s of
            Inl f \<Rightarrow> False
          | Inr s' \<Rightarrow> returned (trace s') = returned (trace s) @ [0]
              \<and> written (trace s') = written (trace s) @ [pMsg])"
    by blast
qed

theorem C4_enqueue_step_contract_witness:
  "exec (replicate 8 (0, Success)) (client 1) =
     Inr \<lparr>sched = demo_sched\<lparr>emptySem := 1, queue := Some [demo_msg, zeroMsg],
                               emptySlot := 1, fullSem := 1\<rparr>,
          threads = [Producer P_Entry [], Worker W_Wait zeroMsg],
          trace = map (Pair 0)
            [SemWait EmptySem Success, Lock Success, SlotWrite 0 demo_msg, AdvanceEmpty 1,
             Unlock Success, SemPost FullSem Success, Return 0]\<rparr>
   \<and> returns_of [(0, Success), (0, Success), (0, Failed), (0, Success), (0, Success),
                  (0, Failed), (0, Failed), (0, Success)] (client 1) = [0]
   \<and> (\<exists>s'. exec (replicate 8 (0, Success)) (boot demo_sched (threads (client 1))) = Inr s'
          \<and> call_order P_Entry [(1, demo_msg)] (own 0 (trace s')) = Some (P_Entry, []))"
proof -
  note c = C4_enqueue_step_contract [of 0 "client 1" 1 demo_msg "[]" "[zeroMsg, zeroMsg]"]
  have p: "0 < length (threads (client 1))
    \<and> threads (client 1) ! 0 = Producer P_Entry [(1, demo_msg)]
    \<and> (1::nat) \<noteq> NULL
    \<and> 0 < emptySem (sched (client 1)) \<and> queueMutex (sched (client 1)) = None
    \<and> queue (sched (client 1)) = Some [zeroMsg, zeroMsg]
    \<and> 0 \<le> emptySlot (sched (client 1))
    \<and> emptySlot (sched (client 1)) < queueSize (sched (client 1))
    \<and> length [zeroMsg, zeroMsg] = nat (queueSize (sched (client 1)))
    \<and> queueSize (sched (client 1)) < 2 ^ 31"
    by (simp add: client_def demo_sched_def)
  from c p have a: "exec (replicate 8 (0, Success)) (client 1) =
     Inr \<lparr>sched = demo_sched\<lparr>emptySem := 1, queue := Some [demo_msg, zeroMsg],
                               emptySlot := 1, fullSem := 1\<rparr>,
          threads = [Producer P_Entry [], Worker W_Wait zeroMsg],
          trace = map (Pair 0)
            [SemWait EmptySem Success, Lock Success, SlotWrite 0 demo_msg, AdvanceEmpty 1,
             Unlock Success, SemPost FullSem Success, Return 0]\<rparr>"
    by (simp add: client_def demo_sched_def)
  from c p have "case exec [(0, Success), (0, Success), (0, Failed), (0, Success), (0, Success),
                  (0, Failed), (0, Failed), (0, Success)] (client 1) of
         Inl f \<Rightarrow> False
       | Inr s' \<Rightarrow> returned (trace s') = returned (trace (client 1)) @ [0]
               \<and> written (trace s') = written (trace (client 1)) @ [demo_msg]"
    by blast
  then have b: "returns_of [(0, Success), (0, Success), (0, Failed), (0, Success), (0, Success),
                  (0, Failed), (0, Failed), (0, Success)] (client 1) = [0]"
    by (auto simp: returns_of_def client_def split: sum.splits)
  have "\<exists>s'. exec (replicate 8 (0, Success)) (boot demo_sched (threads (client 1))) = Inr s'
          \<and> threads s' ! 0 = Producer P_Entry []"
    by (simp add: boot_def client_def step_def numeral_eq_Suc demo_sched_def int32_def
        smod_nonneg)
  then obtain s' where r: "exec (replicate 8 (0, Success))
      (boot demo_sched (threads (client 1))) = Inr s'"
    and th: "threads s' ! 0 = Producer P_Entry []" by blast
  from C4_enqueue_step_contract
    [of 0 _ _ _ _ _ "threads (client 1)" "[(1, demo_msg)]" "replicate 8 (0, Success)"
        demo_sched s'] r th
  have "call_order P_Entry [(1, demo_msg)] (own 0 (trace s')) = Some (P_Entry, [])"
    by (simp add: client_def waiting_as_entry_def)
  with a b r show ?thesis by blast
qed

subsection \<open>Submitting through a null handle\<close>

text \<open>
  Claim C5, as stated, gives the caller of \<open>taosScheduleTask\<close> a failure indicator when
  the handle is \<open>NULL\<close>. The code returns 0 there, the value it also returns after an
  enqueue: the two calls below, one through \<open>NULL\<close> and one through a valid handle,
  return the same value.
\<close>

theorem C5_counterexample:
  "returns_of [(0, Success)] (client NULL) = [0]
   \<and> returns_of (replicate 8 (0, Success)) (client 1) = [0]
   \<and> returns_of [(0, Success)] (client NULL) = returns_of (replicate 8 (0, Success)) (client 1)"
  by (simp add: returns_of_def client_def step_def numeral_eq_Suc demo_sched_def
      int32_def smod_nonneg)

text \<open>
  Claim C5, amended. A call of \<open>taosScheduleTask\<close> with the \<open>NULL\<close> handle is a
  single step that is enabled in every state: it logs that the record is dropped and
  returns 0 (the value an enqueue returns, too), and leaves the scheduler object as it
  was. No step logs a drop for a handle that is not \<open>NULL\<close>; with such a handle and
  no free slot the call blocks on \<open>emptySem\<close>.
\<close>

theorem C5_null_handle_drops:
  "(t < length (threads s) \<and> threads s ! t = Producer P_Entry ((NULL, pMsg) # rest) \<longrightarrow>
      step t Success s =
        Inr (s\<lparr>threads := (threads s)[t := Producer P_Entry rest],
                trace := trace s @ [(t, LogDropped pMsg), (t, Return 0)]\<rparr>))
   \<and> (taosScheduleTask oc pc qhandle pMsg me p = Inr (pc', p', evs)
        \<and> LogDropped x \<in> set evs \<longrightarrow> qhandle = NULL \<and> pc = P_Entry)
   \<and> (qhandle \<noteq> NULL \<and> emptySem p = 0 \<longrightarrow>
        taosScheduleTask Success P_Entry qhandle pMsg me p = Inr (P_Wait, p, [])
        \<and> taosScheduleTask Success P_Wait qhandle pMsg me p = Inl Blocked)"
proof -
  have "taosScheduleTask oc pc qhandle pMsg me p = Inr (pc', p', evs)
        \<and> LogDropped x \<in> set evs \<longrightarrow> qhandle = NULL \<and> pc = P_Entry"
    by (cases pc; cases oc) (auto split: if_splits option.splits)
  then show ?thesis by (simp add: step_def)
qed

theorem C5_null_handle_drops_witness:
  "step 0 Success (client NULL) =
     Inr ((client NULL)\<lparr>threads := [Producer P_Entry [], Worker W_Wait zeroMsg],
            trace := [(0, LogDropped demo_msg), (0, Return 0)]\<rparr>)
   \<and> taosScheduleTask Success P_Wait 1 demo_msg 0 (demo_sched\<lparr>emptySem := 0\<rparr>) = Inl Blocked"
  using C5_null_handle_drops
    [of 0 "client NULL" demo_msg "[]" Success P_Entry NULL 0 demo_sched P_Done demo_sched
        "[LogDropped demo_msg, Return 0]" demo_msg]
    C5_null_handle_drops
    [of 0 "client NULL" demo_msg "[]" Success P_Entry 1 0 "demo_sched\<lparr>emptySem := 0\<rparr>"]
  by (simp add: client_def)

subsection \<open>Dispatch of a dequeued record\<close>

text \<open>
  Claim C8 (two-shape dispatch). A worker that holds a dequeued record and has reached
  the dispatch makes one step, which never fails: when \<open>fp\<close> is set it invokes \<open>fp\<close>
  with the record; otherwise, when \<open>tfp\<close> is set, it invokes \<open>tfp\<close> with \<open>ahandle\<close>
  and \<open>thandle\<close>; otherwise it invokes nothing. The step is a single invocation at
  most, leaves the scheduler object alone and takes the worker back to its wait.
\<close>

theorem C8_two_shape_dispatch:
  "(t < length (threads s) \<and> threads s ! t = Worker W_Call msg \<longrightarrow>
      step t Success s =
        Inr (s\<lparr>threads := (threads s)[t := Worker W_Wait msg],
                trace := trace s @ [(t, Invoke (dispatch msg))]\<rparr>))
   \<and> (fp msg \<noteq> NULL \<longrightarrow> dispatch msg = CallFp (fp msg) msg)
   \<and> (fp msg = NULL \<and> tfp msg \<noteq> NULL \<longrightarrow>
        dispatch msg = CallTfp (tfp msg) (ahandle msg) (thandle msg))
   \<and> (fp msg = NULL \<and> tfp msg = NULL \<longrightarrow> dispatch msg = NoCall)"
  by (simp add: step_def dispatch_def)

theorem C8_two_shape_dispatch_witness:
  "step 1 Success ((client 1)\<lparr>threads := [Producer P_Entry [], Worker W_Call demo_msg]\<rparr>) =
     Inr ((client 1)\<lparr>threads := [Producer P_Entry [], Worker W_Wait demo_msg],
            trace := [(1, Invoke (CallFp 7 demo_msg))]\<rparr>)
   \<and> dispatch (demo_msg\<lparr>fp := NULL, tfp := 9\<rparr>) = CallTfp 9 3 4
   \<and> dispatch zeroMsg = NoCall"
  using C8_two_shape_dispatch
    [of 1 "(client 1)\<lparr>threads := [Producer P_Entry [], Worker W_Call demo_msg]\<rparr>" demo_msg]
    C8_two_shape_dispatch [of 0 "client 1" "demo_msg\<lparr>fp := NULL, tfp := 9\<rparr>"]
    C8_two_shape_dispatch [of 0 "client 1" zeroMsg]
  by (simp add: client_def demo_msg_def zeroMsg_def)

subsection \<open>The value \<open>taosScheduleTask\<close> returns\<close>

text \<open>
  Claim C10. \<open>taosScheduleTask\<close> returns 0 on every path: whenever a step ends the
  call, the value returned is 0; the drop for a \<open>NULL\<close> handle returns 0, and so does
  the return after an enqueue; in every execution, faults included, no value other than
  0 is ever returned. The return value does not tell a drop from an enqueue.
\<close>

theorem C10_always_returns_zero:
  "(taosScheduleTask oc pc qhandle pMsg me p = Inr (P_Done, p', evs) \<longrightarrow>
      returned (map (Pair me) evs) = [0])
   \<and> taosScheduleTask Success P_Entry NULL pMsg me p = Inr (P_Done, p, [LogDropped pMsg, Return 0])
   \<and> taosScheduleTask Success P_Return qhandle pMsg me p = Inr (P_Done, p, [Return 0])
   \<and> (exec sch s = Inr s' \<longrightarrow> set (returned (trace s')) \<subseteq> set (returned (trace s)) \<union> {0})"
  using returned_map_Pair_le [of oc pc qhandle pMsg me p P_Done p' evs me]
    exec_returned [of sch s s']
  by simp

theorem C10_always_returns_zero_witness:
  "returned (map (Pair 0) [LogDropped demo_msg, Return 0]) = [0]
   \<and> set (returned (trace ((client NULL)\<lparr>threads := [Producer P_Entry [], Worker W_Wait zeroMsg],
             trace := [(0, LogDropped demo_msg), (0, Return 0)]\<rparr>))) \<subseteq> {0}"
proof -
  have a: "exec [(0, Success)] (client NULL) =
      Inr ((client NULL)\<lparr>threads := [Producer P_Entry [], Worker W_Wait zeroMsg],
             trace := [(0, LogDropped demo_msg), (0, Return 0)]\<rparr>)"
    by (simp add: client_def step_def)
  have b: "taosScheduleTask Success P_Entry NULL demo_msg 0 demo_sched =
      Inr (P_Done, demo_sched, [LogDropped demo_msg, Return 0])"
    by simp
  from C10_always_returns_zero [of Success P_Entry NULL demo_msg 0 demo_sched demo_sched
      "[LogDropped demo_msg, Return 0]" "[(0, Success)]" "client NULL"
      "(client NULL)\<lparr>threads := [Producer P_Entry [], Worker W_Wait zeroMsg],
             trace := [(0, LogDropped demo_msg), (0, Return 0)]\<rparr>"] a b
  show ?thesis by (simp add: client_def)
qed

subsection \<open>The invariant is kept by every step without a fault\<close>

lemma cnt_update:
  "t < length ths \<Longrightarrow>
   cnt P (ths[t := x]) = cnt P ths - of_bool (P (ths ! t)) + of_bool (P x)"
proof (induction ths arbitrary: t)
  case Nil
  then show ?case by simp
next
  case (Cons a ths)
  then show ?case by (cases t) (auto simp: cnt_def)
qed

lemma cnt_pos: "t < length ths \<Longrightarrow> P (ths ! t) \<Longrightarrow> 1 \<le> cnt P ths"
proof -
  assume "t < length ths" "P (ths ! t)"
  then have "ths ! t \<in> set (filter P ths)" by simp
  then show ?thesis by (cases "filter P ths") (simp_all add: cnt_def)
qed

lemma cnt_nonneg: "0 \<le> cnt P ths"
  by (simp add: cnt_def)

lemma owner_has_other:
  "queueMutex p' = queueMutex (sched s) \<Longrightarrow> queueMutex (sched s) \<noteq> Some t \<Longrightarrow>
   owner_has f \<lparr>sched = p', threads = (threads s)[t := x], trace = tr\<rparr> = owner_has f s"
  by (auto simp: owner_has_def split: option.splits)

lemma owner_has_self:
  "queueMutex p' = Some t \<Longrightarrow> t < length (threads s) \<Longrightarrow>
   owner_has f \<lparr>sched = p', threads = (threads s)[t := x], trace = tr\<rparr> = f x"
  by (simp add: owner_has_def)

lemma owner_has_none:
  "queueMutex p' = None \<Longrightarrow> owner_has f \<lparr>sched = p', threads = ths, trace = tr\<rparr> = 0"
  by (simp add: owner_has_def)

lemma owner_has_old:
  "inv_mutex s \<Longrightarrow> t < length (threads s) \<Longrightarrow> in_crit (threads s ! t) \<Longrightarrow>
   owner_has f s = f (threads s ! t) \<and> queueMutex (sched s) = Some t"
  by (simp add: owner_has_def inv_mutex_def)

lemma not_owner:
  "inv_mutex s \<Longrightarrow> t < length (threads s) \<Longrightarrow> \<not> in_crit (threads s ! t) \<Longrightarrow>
   queueMutex (sched s) \<noteq> Some t"
  by (simp add: inv_mutex_def)

lemma inv_mutex_keep:
  "inv_mutex s \<Longrightarrow> t < length (threads s) \<Longrightarrow> queueMutex p' = queueMutex (sched s) \<Longrightarrow>
   in_crit x = in_crit (threads s ! t) \<Longrightarrow>
   inv_mutex \<lparr>sched = p', threads = (threads s)[t := x], trace = tr\<rparr>"
  by (auto simp: inv_mutex_def nth_list_update)

lemma inv_mutex_lock:
  "inv_mutex s \<Longrightarrow> t < length (threads s) \<Longrightarrow> queueMutex (sched s) = None \<Longrightarrow>
   queueMutex p' = Some t \<Longrightarrow> in_crit x \<Longrightarrow>
   inv_mutex \<lparr>sched = p', threads = (threads s)[t := x], trace = tr\<rparr>"
  by (auto simp: inv_mutex_def nth_list_update)

lemma inv_mutex_unlock:
  "inv_mutex s \<Longrightarrow> t < length (threads s) \<Longrightarrow> in_crit (threads s ! t) \<Longrightarrow>
   queueMutex p' = None \<Longrightarrow> \<not> in_crit x \<Longrightarrow>
   inv_mutex \<lparr>sched = p', threads = (threads s)[t := x], trace = tr\<rparr>"
  by (auto simp: inv_mutex_def nth_list_update)

lemma mod_window:
  fixes a b Q :: nat
  assumes "a \<le> b" "b < a + Q" "a mod Q = b mod Q"
  shows "a = b"
proof -
  from assms(1,3) have "Q dvd b - a" by (metis mod_eq_dvd_iff_nat)
  moreover from assms(1,2) have "b - a < Q" by arith
  ultimately have "b - a = 0" by (meson dvd_imp_le not_less zero_less_iff_neq_zero)
  with assms(1) show ?thesis by simp
qed

lemma nat_advance:
  "0 \<le> c \<Longrightarrow> 0 < Q \<Longrightarrow> nat ((c + 1) mod Q) = (nat c + 1) mod nat Q"
  by (simp add: nat_mod_distrib nat_add_distrib)

lemma quiet_step:
  assumes i: "queue_inv s" and t: "t < length (threads s)"
    and c0: "\<not> in_crit (threads s ! t)" and c1: "\<not> in_crit x"
    and m: "queueMutex p' = queueMutex (sched s)" and q: "queue p' = queue (sched s)"
    and e: "emptySlot p' = emptySlot (sched s)" and f: "fullSlot p' = fullSlot (sched s)"
    and z: "queueSize p' = queueSize (sched s)"
    and w: "written (map (Pair t) evs) = []" and r: "taken (map (Pair t) evs) = []"
    and se: "inv_sems \<lparr>sched = p', threads = (threads s)[t := x],
                       trace = trace s @ map (Pair t) evs\<rparr>"
  shows "queue_inv \<lparr>sched = p', threads = (threads s)[t := x], trace = trace s @ map (Pair t) evs\<rparr>"
proof -
  from i have sh: "inv_shape s" and mu: "inv_mutex s"
    and cu: "inv_cursors s" and sl: "inv_slots s" and fi: "inv_fifo s"
    by (simp_all add: queue_inv_def)
  from mu t c0 have no: "queueMutex (sched s) \<noteq> Some t" by (simp add: not_owner)
  have "inv_shape \<lparr>sched = p', threads = (threads s)[t := x], trace = trace s @ map (Pair t) evs\<rparr>"
    using sh q z by (simp add: inv_shape_def slots_of_def)
  moreover have "inv_mutex \<lparr>sched = p', threads = (threads s)[t := x], trace = trace s @ map (Pair t) evs\<rparr>"
    using mu t m c0 c1 by (intro inv_mutex_keep) simp_all
  moreover have "inv_cursors \<lparr>sched = p', threads = (threads s)[t := x], trace = trace s @ map (Pair t) evs\<rparr>"
    using cu e f z w r no m by (simp add: inv_cursors_def owner_has_other written_append taken_append)
  moreover have "inv_slots \<lparr>sched = p', threads = (threads s)[t := x], trace = trace s @ map (Pair t) evs\<rparr>"
    using sl q z w r by (simp add: inv_slots_def written_append taken_append slots_of_def)
  moreover have "inv_fifo \<lparr>sched = p', threads = (threads s)[t := x], trace = trace s @ map (Pair t) evs\<rparr>"
    using fi w r by (simp add: inv_fifo_def written_append taken_append)
  ultimately show ?thesis using se by (simp add: queue_inv_def)
qed

lemma worker_wait:
  assumes i: "queue_inv s" and t: "t < length (threads s)" and th: "threads s ! t = Worker W_Wait lm"
    and st: "taosProcessSchedQueue oc W_Wait lm t (sched s) = Inr (pc', lm', p', evs)"
    and oc: "oc \<noteq> Failed"
  shows "queue_inv \<lparr>sched = p', threads = (threads s)[t := Worker pc' lm'],
             trace = trace s @ map (Pair t) evs\<rparr>"
proof -
  from i have se: "inv_sems s" by (simp add: queue_inv_def)
  show ?thesis
    apply (rule quiet_step [OF i t])
    using th st oc se t
    by (cases oc; auto simp: inv_sems_def cnt_update written_append taken_append split: if_splits)+
qed


lemma lock_step:
  assumes i: "queue_inv s" and t: "t < length (threads s)"
    and c0: "\<not> in_crit (threads s ! t)" and c1: "in_crit x"
    and m0: "queueMutex (sched s) = None" and m: "queueMutex p' = Some t"
    and q: "queue p' = queue (sched s)"
    and e: "emptySlot p' = emptySlot (sched s)" and f: "fullSlot p' = fullSlot (sched s)"
    and z: "queueSize p' = queueSize (sched s)"
    and w: "written (map (Pair t) evs) = []" and r: "taken (map (Pair t) evs) = []"
    and u: "unadvancedW x = 0" "unadvancedR x = 0"
    and se: "inv_sems \<lparr>sched = p', threads = (threads s)[t := x],
                       trace = trace s @ map (Pair t) evs\<rparr>"
  shows "queue_inv \<lparr>sched = p', threads = (threads s)[t := x], trace = trace s @ map (Pair t) evs\<rparr>"
proof -
  from i have sh: "inv_shape s" and mu: "inv_mutex s"
    and cu: "inv_cursors s" and sl: "inv_slots s" and fi: "inv_fifo s"
    by (simp_all add: queue_inv_def)
  have o: "owner_has g s = 0" for g using m0 by (simp add: owner_has_def)
  have "inv_shape \<lparr>sched = p', threads = (threads s)[t := x], trace = trace s @ map (Pair t) evs\<rparr>"
    using sh q z by (simp add: inv_shape_def slots_of_def)
  moreover have "inv_mutex \<lparr>sched = p', threads = (threads s)[t := x], trace = trace s @ map (Pair t) evs\<rparr>"
    using mu t m0 m c1 by (intro inv_mutex_lock) simp_all
  moreover have "inv_cursors \<lparr>sched = p', threads = (threads s)[t := x], trace = trace s @ map (Pair t) evs\<rparr>"
    using cu e f z w r m t u o
    by (simp add: inv_cursors_def owner_has_self written_append taken_append)
  moreover have "inv_slots \<lparr>sched = p', threads = (threads s)[t := x], trace = trace s @ map (Pair t) evs\<rparr>"
    using sl q z w r by (simp add: inv_slots_def written_append taken_append slots_of_def)
  moreover have "inv_fifo \<lparr>sched = p', threads = (threads s)[t := x], trace = trace s @ map (Pair t) evs\<rparr>"
    using fi w r by (simp add: inv_fifo_def written_append taken_append)
  ultimately show ?thesis using se by (simp add: queue_inv_def)
qed

lemma unlock_step:
  assumes i: "queue_inv s" and t: "t < length (threads s)"
    and c0: "in_crit (threads s ! t)" and c1: "\<not> in_crit x"
    and m: "queueMutex p' = None"
    and q: "queue p' = queue (sched s)"
    and e: "emptySlot p' = emptySlot (sched s)" and f: "fullSlot p' = fullSlot (sched s)"
    and z: "queueSize p' = queueSize (sched s)"
    and w: "written (map (Pair t) evs) = []" and r: "taken (map (Pair t) evs) = []"
    and u: "unadvancedW (threads s ! t) = 0" "unadvancedR (threads s ! t) = 0"
    and se: "inv_sems \<lparr>sched = p', threads = (threads s)[t := x],
                       trace = trace s @ map (Pair t) evs\<rparr>"
  shows "queue_inv \<lparr>sched = p', threads = (threads s)[t := x], trace = trace s @ map (Pair t) evs\<rparr>"
proof -
  from i have sh: "inv_shape s" and mu: "inv_mutex s"
    and cu: "inv_cursors s" and sl: "inv_slots s" and fi: "inv_fifo s"
    by (simp_all add: queue_inv_def)
  have o: "owner_has g s = g (threads s ! t)" for g
    using owner_has_old [OF mu t c0] by simp
  have "inv_shape \<lparr>sched = p', threads = (threads s)[t := x], trace = trace s @ map (Pair t) evs\<rparr>"
    using sh q z by (simp add: inv_shape_def slots_of_def)
  moreover have "inv_mutex \<lparr>sched = p', threads = (threads s)[t := x], trace = trace s @ map (Pair t) evs\<rparr>"
    using mu t c0 m c1 by (intro inv_mutex_unlock) simp_all
  moreover have "inv_cursors \<lparr>sched = p', threads = (threads s)[t := x], trace = trace s @ map (Pair t) evs\<rparr>"
    using cu e f z w r m t u o
    by (simp add: inv_cursors_def owner_has_none written_append taken_append)
  moreover have "inv_slots \<lparr>sched = p', threads = (threads s)[t := x], trace = trace s @ map (Pair t) evs\<rparr>"
    using sl q z w r by (simp add: inv_slots_def written_append taken_append slots_of_def)
  moreover have "inv_fifo \<lparr>sched = p', threads = (threads s)[t := x], trace = trace s @ map (Pair t) evs\<rparr>"
    using fi w r by (simp add: inv_fifo_def written_append taken_append)
  ultimately show ?thesis using se by (simp add: queue_inv_def)
qed

lemma worker_lock:
  assumes i: "queue_inv s" and t: "t < length (threads s)" and th: "threads s ! t = Worker W_Lock lm"
    and st: "taosProcessSchedQueue oc W_Lock lm t (sched s) = Inr (pc', lm', p', evs)"
    and oc: "oc \<noteq> Failed"
  shows "queue_inv \<lparr>sched = p', threads = (threads s)[t := Worker pc' lm'],
             trace = trace s @ map (Pair t) evs\<rparr>"
proof -
  from i have se: "inv_sems s" by (simp add: queue_inv_def)
  show ?thesis
    apply (rule lock_step [OF i t])
    using th st oc se t
    by (cases oc; auto simp: inv_sems_def cnt_update written_append taken_append
        split: if_splits option.splits)+
qed

lemma worker_unlock:
  assumes i: "queue_inv s" and t: "t < length (threads s)" and th: "threads s ! t = Worker W_Unlock lm"
    and st: "taosProcessSchedQueue oc W_Unlock lm t (sched s) = Inr (pc', lm', p', evs)"
    and oc: "oc \<noteq> Failed"
  shows "queue_inv \<lparr>sched = p', threads = (threads s)[t := Worker pc' lm'],
             trace = trace s @ map (Pair t) evs\<rparr>"
proof -
  from i have se: "inv_sems s" by (simp add: queue_inv_def)
  show ?thesis
    apply (rule unlock_step [OF i t])
    using th st oc se t
    by (cases oc; auto simp: inv_sems_def cnt_update written_append taken_append
        split: if_splits option.splits)+
qed

lemma worker_post:
  assumes i: "queue_inv s" and t: "t < length (threads s)" and th: "threads s ! t = Worker W_Post lm"
    and st: "taosProcessSchedQueue oc W_Post lm t (sched s) = Inr (pc', lm', p', evs)"
    and oc: "oc \<noteq> Failed"
  shows "queue_inv \<lparr>sched = p', threads = (threads s)[t := Worker pc' lm'],
             trace = trace s @ map (Pair t) evs\<rparr>"
proof -
  from i have se: "inv_sems s" by (simp add: queue_inv_def)
  show ?thesis
    apply (rule quiet_step [OF i t])
    using th st oc se t
    by (cases oc; auto simp: inv_sems_def cnt_update written_append taken_append
        split: if_splits option.splits)+
qed

lemma worker_call:
  assumes i: "queue_inv s" and t: "t < length (threads s)" and th: "threads s ! t = Worker W_Call lm"
    and st: "taosProcessSchedQueue oc W_Call lm t (sched s) = Inr (pc', lm', p', evs)"
    and oc: "oc \<noteq> Failed"
  shows "queue_inv \<lparr>sched = p', threads = (threads s)[t := Worker pc' lm'],
             trace = trace s @ map (Pair t) evs\<rparr>"
proof -
  from i have se: "inv_sems s" by (simp add: queue_inv_def)
  show ?thesis
    apply (rule quiet_step [OF i t])
    using th st oc se t
    by (cases oc; auto simp: inv_sems_def cnt_update written_append taken_append
        split: if_splits option.splits)+
qed


lemma read_result:
  "taosProcessSchedQueue oc W_Read lm t p = Inr r \<Longrightarrow>
   \<exists>slots. queue p = Some slots \<and>
     r = (W_Clear, slots ! nat (fullSlot p), p,
          [SlotRead (nat (fullSlot p)) (slots ! nat (fullSlot p))])"
  by (cases "queue p") (simp_all split: if_splits)

lemma worker_read:
  assumes i: "queue_inv s" and t: "t < length (threads s)" and th: "threads s ! t = Worker W_Read lm"
    and st: "taosProcessSchedQueue oc W_Read lm t (sched s) = Inr (pc', lm', p', evs)"
  shows "queue_inv \<lparr>sched = p', threads = (threads s)[t := Worker pc' lm'],
             trace = trace s @ map (Pair t) evs\<rparr>"
proof -
  let ?Q = "nat (queueSize (sched s))"
  let ?nD = "length (taken (trace s))"
  let ?nE = "length (written (trace s))"
  let ?f = "nat (fullSlot (sched s))"
  let ?s' = "\<lparr>sched = p', threads = (threads s)[t := Worker pc' lm'],
             trace = trace s @ map (Pair t) evs\<rparr>"
  from i have sh: "inv_shape s" and mu: "inv_mutex s" and se: "inv_sems s"
    and cu: "inv_cursors s" and sl: "inv_slots s" and fi: "inv_fifo s"
    by (simp_all add: queue_inv_def)
  from read_result [OF st] obtain slots where q: "queue (sched s) = Some slots"
    and e: "pc' = W_Clear" "lm' = slots ! ?f" "p' = sched s" "evs = [SlotRead ?f (slots ! ?f)]"
    by blast
  have so: "slots_of (sched s) = slots" using q by (simp add: slots_of_def)
  have own: "queueMutex (sched s) = Some t" "owner_has unadvancedR s = 0"
    "owner_has unadvancedW s = 0"
    using owner_has_old [OF mu t, of unadvancedR] owner_has_old [OF mu t, of unadvancedW] th
    by simp_all
  have Q: "0 < ?Q" using sh by (simp add: inv_shape_def)
  have fQ: "?f < ?Q" using cu Q by (simp add: inv_cursors_def)
  have "(?f + owner_has unadvancedR s) mod ?Q = ?nD mod ?Q"
    using cu unfolding inv_cursors_def by blast
  then have f: "?f = ?nD mod ?Q" using own(2) fQ by simp
  have "1 \<le> cnt holdsFull (threads s)" using t th by (intro cnt_pos [of t]) simp_all
  with se have lt: "?nD < ?nE"
    using cnt_nonneg [of wrote "threads s"] unfolding inv_sems_def by linarith
  have rd: "slots ! ?f = written (trace s) ! ?nD"
    using sl lt f so by (simp add: inv_slots_def)
  have "inv_shape ?s'" using sh e by (simp add: inv_shape_def)
  moreover have "inv_mutex ?s'" using mu t th e by (intro inv_mutex_keep) simp_all
  moreover have "inv_sems ?s'"
    using se t th e by (simp add: inv_sems_def cnt_update written_append taken_append)
  moreover have "inv_cursors ?s'"
  proof -
    have "owner_has unadvancedR ?s' = 1" "owner_has unadvancedW ?s' = 0"
      using own t e by (simp_all add: owner_has_self)
    moreover have "(?f + 1) mod ?Q = (?nD + 1) mod ?Q"
      using f by (metis mod_add_left_eq)
    ultimately show ?thesis
      using cu e own by (simp add: inv_cursors_def written_append taken_append)
  qed
  moreover have "inv_slots ?s'"
    using sl e by (simp add: inv_slots_def written_append taken_append)
  moreover have "inv_fifo ?s'"
  proof -
    have "take (Suc ?nD) (written (trace s)) = take ?nD (written (trace s)) @ [written (trace s) ! ?nD]"
      using lt by (rule take_Suc_conv_app_nth)
    then show ?thesis
      using fi e rd by (simp add: inv_fifo_def written_append taken_append)
  qed
  ultimately show ?thesis by (simp add: queue_inv_def)
qed

lemma worker_clear:
  assumes i: "queue_inv s" and t: "t < length (threads s)" and th: "threads s ! t = Worker W_Clear lm"
    and st: "taosProcessSchedQueue oc W_Clear lm t (sched s) = Inr (pc', lm', p', evs)"
  shows "queue_inv \<lparr>sched = p', threads = (threads s)[t := Worker pc' lm'],
             trace = trace s @ map (Pair t) evs\<rparr>"
proof -
  let ?Q = "nat (queueSize (sched s))"
  let ?nD = "length (taken (trace s))"
  let ?nE = "length (written (trace s))"
  let ?f = "nat (fullSlot (sched s))"
  let ?s' = "\<lparr>sched = p', threads = (threads s)[t := Worker pc' lm'],
             trace = trace s @ map (Pair t) evs\<rparr>"
  from i have sh: "inv_shape s" and mu: "inv_mutex s" and se: "inv_sems s"
    and cu: "inv_cursors s" and sl: "inv_slots s" and fi: "inv_fifo s"
    by (simp_all add: queue_inv_def)
  from st obtain slots where q: "queue (sched s) = Some slots"
    and e: "pc' = W_Advance" "lm' = lm"
      "p' = (sched s)\<lparr>queue := Some (slots[?f := zeroMsg])\<rparr>" "evs = [SlotClear ?f]"
    by (auto split: if_splits option.splits)
  have so: "slots_of (sched s) = slots" using q by (simp add: slots_of_def)
  have so': "slots_of p' = slots[?f := zeroMsg]" using e by (simp add: slots_of_def)
  have own: "queueMutex (sched s) = Some t" "owner_has unadvancedR s = 1"
    "owner_has unadvancedW s = 0"
    using owner_has_old [OF mu t, of unadvancedR] owner_has_old [OF mu t, of unadvancedW] th
    by simp_all
  have Q: "0 < ?Q" using sh by (simp add: inv_shape_def)
  have fQ: "?f < ?Q" using cu Q by (simp add: inv_cursors_def)
  have "(?f + owner_has unadvancedR s) mod ?Q = ?nD mod ?Q"
    using cu unfolding inv_cursors_def by blast
  then have f: "(?f + 1) mod ?Q = ?nD mod ?Q" using own(2) by simp
  have "1 \<le> cnt took (threads s)" using t th by (intro cnt_pos [of t]) simp_all
  with se have room: "?nE < ?nD + ?Q"
    using cnt_nonneg [of holdsEmpty "threads s"] Q unfolding inv_sems_def by linarith
  have "inv_shape ?s'" using sh e q by (simp add: inv_shape_def slots_of_def)
  moreover have "inv_mutex ?s'" using mu t th e by (intro inv_mutex_keep) simp_all
  moreover have "inv_sems ?s'"
    using se t th e by (simp add: inv_sems_def cnt_update written_append taken_append)
  moreover have "inv_cursors ?s'"
  proof -
    have "owner_has unadvancedR ?s' = 1" "owner_has unadvancedW ?s' = 0"
      using own t e by (simp_all add: owner_has_self)
    then show ?thesis
      using cu e own by (simp add: inv_cursors_def written_append taken_append)
  qed
  moreover have "inv_slots ?s'"
  proof -
    have "slots[?f := zeroMsg] ! (k mod ?Q) = written (trace s) ! k"
      if k: "?nD \<le> k" "k < ?nE" for k
    proof -
      have "k mod ?Q \<noteq> ?f"
      proof
        assume "k mod ?Q = ?f"
        then have "(k + 1) mod ?Q = ?nD mod ?Q" using f by (metis mod_add_left_eq)
        moreover have "?nD \<le> k + 1" "k + 1 < ?nD + ?Q" using k room by simp_all
        ultimately have "?nD = k + 1" by (metis mod_window)
        with k show False by simp
      qed
      then show ?thesis using sl k so by (simp add: inv_slots_def)
    qed
    then show ?thesis
      using e by (simp add: inv_slots_def written_append taken_append slots_of_def)
  qed
  moreover have "inv_fifo ?s'"
    using fi e by (simp add: inv_fifo_def written_append taken_append)
  ultimately show ?thesis by (simp add: queue_inv_def)
qed

lemma worker_advance:
  assumes i: "queue_inv s" and t: "t < length (threads s)" and th: "threads s ! t = Worker W_Advance lm"
    and st: "taosProcessSchedQueue oc W_Advance lm t (sched s) = Inr (pc', lm', p', evs)"
  shows "queue_inv \<lparr>sched = p', threads = (threads s)[t := Worker pc' lm'],
             trace = trace s @ map (Pair t) evs\<rparr>"
proof -
  let ?Q = "nat (queueSize (sched s))"
  let ?f = "nat (fullSlot (sched s))"
  let ?f' = "(fullSlot (sched s) + 1) mod queueSize (sched s)"
  let ?s' = "\<lparr>sched = p', threads = (threads s)[t := Worker pc' lm'],
             trace = trace s @ map (Pair t) evs\<rparr>"
  from i have sh: "inv_shape s" and mu: "inv_mutex s" and se: "inv_sems s"
    and cu: "inv_cursors s" and sl: "inv_slots s" and fi: "inv_fifo s"
    by (simp_all add: queue_inv_def)
  have rng: "0 \<le> fullSlot (sched s)" "fullSlot (sched s) < queueSize (sched s)"
    "queueSize (sched s) < 2 ^ 31" "0 < queueSize (sched s)"
    using cu sh by (simp_all add: inv_cursors_def inv_shape_def)
  from st have e: "pc' = W_Unlock" "lm' = lm"
      "p' = (sched s)\<lparr>fullSlot := ?f'\<rparr>" "evs = [AdvanceFull ?f']"
    using advance_eq [OF rng(1,2,3)] by (auto split: if_splits)
  have own: "queueMutex (sched s) = Some t" "owner_has unadvancedR s = 1"
    "owner_has unadvancedW s = 0"
    using owner_has_old [OF mu t, of unadvancedR] owner_has_old [OF mu t, of unadvancedW] th
    by simp_all
  have "inv_shape ?s'" using sh e by (simp add: inv_shape_def slots_of_def)
  moreover have "inv_mutex ?s'" using mu t th e by (intro inv_mutex_keep) simp_all
  moreover have "inv_sems ?s'"
    using se t th e by (simp add: inv_sems_def cnt_update written_append taken_append)
  moreover have "inv_cursors ?s'"
  proof -
    have "owner_has unadvancedR ?s' = 0" "owner_has unadvancedW ?s' = 0"
      using own t e by (simp_all add: owner_has_self)
    moreover have "nat ?f' = (?f + 1) mod ?Q" using rng by (simp add: nat_advance)
    moreover have "0 \<le> ?f'" "?f' < queueSize (sched s)" using rng by simp_all
    ultimately show ?thesis
      using cu e own by (simp add: inv_cursors_def written_append taken_append)
  qed
  moreover have "inv_slots ?s'"
    using sl e by (simp add: inv_slots_def written_append taken_append slots_of_def)
  moreover have "inv_fifo ?s'"
    using fi e by (simp add: inv_fifo_def written_append taken_append)
  ultimately show ?thesis by (simp add: queue_inv_def)
qed

lemma worker_preserves:
  assumes "queue_inv s" "t < length (threads s)" "threads s ! t = Worker pc lm"
    and "taosProcessSchedQueue oc pc lm t (sched s) = Inr (pc', lm', p', evs)"
    and "oc \<noteq> Failed"
  shows "queue_inv \<lparr>sched = p', threads = (threads s)[t := Worker pc' lm'],
             trace = trace s @ map (Pair t) evs\<rparr>"
  using assms
  by (cases pc)
    (blast intro: worker_wait worker_lock worker_read worker_clear worker_advance
       worker_unlock worker_post worker_call)+


lemma producer_entry:
  assumes i: "queue_inv s" and t: "t < length (threads s)"
    and th: "threads s ! t = Producer P_Entry ((h, m) # rest)"
    and st: "taosScheduleTask oc P_Entry h m t (sched s) = Inr (pc', p', evs)"
    and oc: "oc \<noteq> Failed"
  shows "queue_inv \<lparr>sched = p', threads = (threads s)
               [t := if pc' = P_Done then Producer P_Entry rest else Producer pc' ((h, m) # rest)],
             trace = trace s @ map (Pair t) evs\<rparr>"
proof -
  from i have se: "inv_sems s" by (simp add: queue_inv_def)
  show ?thesis
    apply (rule quiet_step [OF i t])
    using th st oc se t
    by (cases oc; auto simp: inv_sems_def cnt_update written_append taken_append
        split: if_splits option.splits)+
qed

lemma producer_wait:
  assumes i: "queue_inv s" and t: "t < length (threads s)"
    and th: "threads s ! t = Producer P_Wait ((h, m) # rest)"
    and st: "taosScheduleTask oc P_Wait h m t (sched s) = Inr (pc', p', evs)"
    and oc: "oc \<noteq> Failed"
  shows "queue_inv \<lparr>sched = p', threads = (threads s)
               [t := if pc' = P_Done then Producer P_Entry rest else Producer pc' ((h, m) # rest)],
             trace = trace s @ map (Pair t) evs\<rparr>"
proof -
  from i have se: "inv_sems s" by (simp add: queue_inv_def)
  show ?thesis
    apply (rule quiet_step [OF i t])
    using th st oc se t
    by (cases oc; auto simp: inv_sems_def cnt_update written_append taken_append
        split: if_splits option.splits)+
qed

lemma producer_lock:
  assumes i: "queue_inv s" and t: "t < length (threads s)"
    and th: "threads s ! t = Producer P_Lock ((h, m) # rest)"
    and st: "taosScheduleTask oc P_Lock h m t (sched s) = Inr (pc', p', evs)"
    and oc: "oc \<noteq> Failed"
  shows "queue_inv \<lparr>sched = p', threads = (threads s)
               [t := if pc' = P_Done then Producer P_Entry rest else Producer pc' ((h, m) # rest)],
             trace = trace s @ map (Pair t) evs\<rparr>"
proof -
  from i have se: "inv_sems s" by (simp add: queue_inv_def)
  show ?thesis
    apply (rule lock_step [OF i t])
    using th st oc se t
    by (cases oc; auto simp: inv_sems_def cnt_update written_append taken_append
        split: if_splits option.splits)+
qed

lemma producer_unlock:
  assumes i: "queue_inv s" and t: "t < length (threads s)"
    and th: "threads s ! t = Producer P_Unlock ((h, m) # rest)"
    and st: "taosScheduleTask oc P_Unlock h m t (sched s) = Inr (pc', p', evs)"
    and oc: "oc \<noteq> Failed"
  shows "queue_inv \<lparr>sched = p', threads = (threads s)
               [t := if pc' = P_Done then Producer P_Entry rest else Producer pc' ((h, m) # rest)],
             trace = trace s @ map (Pair t) evs\<rparr>"
proof -
  from i have se: "inv_sems s" by (simp add: queue_inv_def)
  show ?thesis
    apply (rule unlock_step [OF i t])
    using th st oc se t
    by (cases oc; auto simp: inv_sems_def cnt_update written_append taken_append
        split: if_splits option.splits)+
qed

lemma producer_post:
  assumes i: "queue_inv s" and t: "t < length (threads s)"
    and th: "threads s ! t = Producer P_Post ((h, m) # rest)"
    and st: "taosScheduleTask oc P_Post h m t (sched s) = Inr (pc', p', evs)"
    and oc: "oc \<noteq> Failed"
  shows "queue_inv \<lparr>sched = p', threads = (threads s)
               [t := if pc' = P_Done then Producer P_Entry rest else Producer pc' ((h, m) # rest)],
             trace = trace s @ map (Pair t) evs\<rparr>"
proof -
  from i have se: "inv_sems s" by (simp add: queue_inv_def)
  show ?thesis
    apply (rule quiet_step [OF i t])
    using th st oc se t
    by (cases oc; auto simp: inv_sems_def cnt_update written_append taken_append
        split: if_splits option.splits)+
qed

lemma producer_return:
  assumes i: "queue_inv s" and t: "t < length (threads s)"
    and th: "threads s ! t = Producer P_Return ((h, m) # rest)"
    and st: "taosScheduleTask oc P_Return h m t (sched s) = Inr (pc', p', evs)"
    and oc: "oc \<noteq> Failed"
  shows "queue_inv \<lparr>sched = p', threads = (threads s)
               [t := if pc' = P_Done then Producer P_Entry rest else Producer pc' ((h, m) # rest)],
             trace = trace s @ map (Pair t) evs\<rparr>"
proof -
  from i have se: "inv_sems s" by (simp add: queue_inv_def)
  show ?thesis
    apply (rule quiet_step [OF i t])
    using th st oc se t
    by (cases oc; auto simp: inv_sems_def cnt_update written_append taken_append
        split: if_splits option.splits)+
qed

lemma write_result:
  "taosScheduleTask oc P_Write h m t p = Inr r \<Longrightarrow>
   \<exists>slots. queue p = Some slots \<and> nat (emptySlot p) < length slots \<and>
     r = (P_Advance, p\<lparr>queue := Some (slots[nat (emptySlot p) := m])\<rparr>,
          [SlotWrite (nat (emptySlot p)) m])"
  by (cases "queue p") (simp_all split: if_splits)

lemma producer_write:
  assumes i: "queue_inv s" and t: "t < length (threads s)"
    and th: "threads s ! t = Producer P_Write ((h, m) # rest)"
    and st: "taosScheduleTask oc P_Write h m t (sched s) = Inr (pc', p', evs)"
  shows "queue_inv \<lparr>sched = p', threads = (threads s)
               [t := if pc' = P_Done then Producer P_Entry rest else Producer pc' ((h, m) # rest)],
             trace = trace s @ map (Pair t) evs\<rparr>"
proof -
  let ?Q = "nat (queueSize (sched s))"
  let ?nD = "length (taken (trace s))"
  let ?nE = "length (written (trace s))"
  let ?e = "nat (emptySlot (sched s))"
  let ?s' = "\<lparr>sched = p', threads = (threads s)
               [t := if pc' = P_Done then Producer P_Entry rest else Producer pc' ((h, m) # rest)],
             trace = trace s @ map (Pair t) evs\<rparr>"
  from i have sh: "inv_shape s" and mu: "inv_mutex s" and se: "inv_sems s"
    and cu: "inv_cursors s" and sl: "inv_slots s" and fi: "inv_fifo s"
    by (simp_all add: queue_inv_def)
  from write_result [OF st] obtain slots where q: "queue (sched s) = Some slots"
    and el: "?e < length slots"
    and e: "pc' = P_Advance" "p' = (sched s)\<lparr>queue := Some (slots[?e := m])\<rparr>"
      "evs = [SlotWrite ?e m]"
    by blast
  have so: "slots_of (sched s) = slots" using q by (simp add: slots_of_def)
  have own: "queueMutex (sched s) = Some t" "owner_has unadvancedR s = 0"
    "owner_has unadvancedW s = 0"
    using owner_has_old [OF mu t, of unadvancedR] owner_has_old [OF mu t, of unadvancedW] th
    by simp_all
  have Q: "0 < ?Q" using sh by (simp add: inv_shape_def)
  have eQ: "?e < ?Q" using cu Q by (simp add: inv_cursors_def)
  have "(?e + owner_has unadvancedW s) mod ?Q = ?nE mod ?Q"
    using cu unfolding inv_cursors_def by blast
  then have ee: "?e = ?nE mod ?Q" using own(3) eQ by simp
  have "1 \<le> cnt holdsEmpty (threads s)" using t th by (intro cnt_pos [of t]) simp_all
  with se have room: "?nE < ?nD + ?Q"
    using cnt_nonneg [of took "threads s"] Q unfolding inv_sems_def by linarith
  from se have le: "?nD \<le> ?nE"
    using cnt_nonneg [of wrote "threads s"] cnt_nonneg [of holdsFull "threads s"]
    unfolding inv_sems_def by linarith
  have "inv_shape ?s'" using sh e q by (simp add: inv_shape_def slots_of_def)
  moreover have "inv_mutex ?s'" using mu t th e by (intro inv_mutex_keep) simp_all
  moreover have "inv_sems ?s'"
    using se t th e by (simp add: inv_sems_def cnt_update written_append taken_append)
  moreover have "inv_cursors ?s'"
  proof -
    have "owner_has unadvancedR ?s' = 0" "owner_has unadvancedW ?s' = 1"
      using own t e by (simp_all add: owner_has_self)
    moreover have "(?e + 1) mod ?Q = (?nE + 1) mod ?Q"
      using ee by (metis mod_add_left_eq)
    ultimately show ?thesis
      using cu e own by (simp add: inv_cursors_def written_append taken_append)
  qed
  moreover have "inv_slots ?s'"
  proof -
    have "slots[?e := m] ! (k mod ?Q) = (written (trace s) @ [m]) ! k"
      if k: "?nD \<le> k" "k < ?nE + 1" for k
    proof (cases "k = ?nE")
      case True
      then show ?thesis using ee el by simp
    next
      case False
      with k have kl: "k < ?nE" by simp
      have "k mod ?Q \<noteq> ?e"
      proof
        assume "k mod ?Q = ?e"
        then have "k mod ?Q = ?nE mod ?Q" using ee by simp
        moreover have "k \<le> ?nE" "?nE < k + ?Q" using k kl room by simp_all
        ultimately have "k = ?nE" by (metis mod_window)
        with kl show False by simp
      qed
      then show ?thesis using sl k kl so by (simp add: inv_slots_def nth_append)
    qed
    then show ?thesis
      using e by (simp add: inv_slots_def written_append taken_append slots_of_def)
  qed
  moreover have "inv_fifo ?s'"
    using fi e le by (simp add: inv_fifo_def written_append taken_append)
  ultimately show ?thesis by (simp add: queue_inv_def)
qed

lemma producer_advance:
  assumes i: "queue_inv s" and t: "t < length (threads s)"
    and th: "threads s ! t = Producer P_Advance ((h, m) # rest)"
    and st: "taosScheduleTask oc P_Advance h m t (sched s) = Inr (pc', p', evs)"
  shows "queue_inv \<lparr>sched = p', threads = (threads s)
               [t := if pc' = P_Done then Producer P_Entry rest else Producer pc' ((h, m) # rest)],
             trace = trace s @ map (Pair t) evs\<rparr>"
proof -
  let ?Q = "nat (queueSize (sched s))"
  let ?e = "nat (emptySlot (sched s))"
  let ?e' = "(emptySlot (sched s) + 1) mod queueSize (sched s)"
  let ?s' = "\<lparr>sched = p', threads = (threads s)
               [t := if pc' = P_Done then Producer P_Entry rest else Producer pc' ((h, m) # rest)],
             trace = trace s @ map (Pair t) evs\<rparr>"
  from i have sh: "inv_shape s" and mu: "inv_mutex s" and se: "inv_sems s"
    and cu: "inv_cursors s" and sl: "inv_slots s" and fi: "inv_fifo s"
    by (simp_all add: queue_inv_def)
  have rng: "0 \<le> emptySlot (sched s)" "emptySlot (sched s) < queueSize (sched s)"
    "queueSize (sched s) < 2 ^ 31" "0 < queueSize (sched s)"
    using cu sh by (simp_all add: inv_cursors_def inv_shape_def)
  from st have e: "pc' = P_Unlock"
      "p' = (sched s)\<lparr>emptySlot := ?e'\<rparr>" "evs = [AdvanceEmpty ?e']"
    using advance_eq [OF rng(1,2,3)] by (auto split: if_splits)
  have own: "queueMutex (sched s) = Some t" "owner_has unadvancedR s = 0"
    "owner_has unadvancedW s = 1"
    using owner_has_old [OF mu t, of unadvancedR] owner_has_old [OF mu t, of unadvancedW] th
    by simp_all
  have "inv_shape ?s'" using sh e by (simp add: inv_shape_def slots_of_def)
  moreover have "inv_mutex ?s'" using mu t th e by (intro inv_mutex_keep) simp_all
  moreover have "inv_sems ?s'"
    using se t th e by (simp add: inv_sems_def cnt_update written_append taken_append)
  moreover have "inv_cursors ?s'"
  proof -
    have "owner_has unadvancedR ?s' = 0" "owner_has unadvancedW ?s' = 0"
      using own t e by (simp_all add: owner_has_self)
    moreover have "nat ?e' = (?e + 1) mod ?Q" using rng by (simp add: nat_advance)
    moreover have "0 \<le> ?e'" "?e' < queueSize (sched s)" using rng by simp_all
    ultimately show ?thesis
      using cu e own by (simp add: inv_cursors_def written_append taken_append)
  qed
  moreover have "inv_slots ?s'"
    using sl e by (simp add: inv_slots_def written_append taken_append slots_of_def)
  moreover have "inv_fifo ?s'"
    using fi e by (simp add: inv_fifo_def written_append taken_append)
  ultimately show ?thesis by (simp add: queue_inv_def)
qed

lemma producer_preserves:
  assumes "queue_inv s" "t < length (threads s)" "threads s ! t = Producer pc ((h, m) # rest)"
    and "taosScheduleTask oc pc h m t (sched s) = Inr (pc', p', evs)"
    and "oc \<noteq> Failed"
  shows "queue_inv \<lparr>sched = p', threads = (threads s)
               [t := if pc' = P_Done then Producer P_Entry rest else Producer pc' ((h, m) # rest)],
             trace = trace s @ map (Pair t) evs\<rparr>"
proof (cases pc)
  case P_Done
  with assms show ?thesis by simp
qed (use assms in \<open>blast intro: producer_entry producer_wait producer_lock producer_write
       producer_advance producer_unlock producer_post producer_return\<close>)+

lemma inv_step:
  assumes "queue_inv s" "step t oc s = Inr s'" "oc \<noteq> Failed"
  shows "queue_inv s'"
  using assms(2)
proof (cases rule: step_shape)
  case worker
  with assms show ?thesis by (simp add: worker_preserves)
next
  case producer
  with assms show ?thesis by (simp add: producer_preserves)
qed

lemma inv_exec:
  "queue_inv s \<Longrightarrow> fault_free sch \<Longrightarrow> exec sch s = Inr s' \<Longrightarrow> queue_inv s'"
proof (induction sch arbitrary: s)
  case Nil
  then show ?case by simp
next
  case (Cons a sch)
  obtain t oc where a: "a = (t, oc)" by (cases a)
  from Cons.prems a obtain s1 where s1: "step t oc s = Inr s1" and r: "exec sch s1 = Inr s'"
    by (auto split: sum.splits)
  from Cons.prems a have "oc \<noteq> Failed" "fault_free sch" by (simp_all add: fault_free_def)
  with Cons.IH [OF inv_step [OF Cons.prems(1) s1]] r show ?case by simp
qed

subsection \<open>Shutdown\<close>

lemma cancel_fold:
  "\<forall>tid \<in> set tids. Thread tid \<in> live w \<Longrightarrow>
   fold pthread_cancel tids w = w\<lparr>cancelled := cancelled w \<union> set tids\<rparr>"
proof (induction tids arbitrary: w)
  case Nil
  then show ?case by simp
next
  case (Cons tid tids)
  then show ?case by (simp add: pthread_cancel_def)
qed

lemma join_all_ok:
  "distinct tids \<Longrightarrow> \<forall>tid \<in> set tids. Thread tid \<in> live w \<and> tid \<in> cancelled w \<Longrightarrow>
   join_all tids w =
     Inr (w\<lparr>live := live w - Thread ` set tids, cancelled := cancelled w - set tids\<rparr>)"
proof (induction tids arbitrary: w)
  case Nil
  then show ?case by simp
next
  case (Cons tid tids)
  let ?w1 = "w\<lparr>live := live w - {Thread tid}, cancelled := cancelled w - {tid}\<rparr>"
  from Cons.prems have j: "pthread_join tid w = Inr ?w1" by (simp add: pthread_join_def)
  from Cons.prems have "distinct tids"
    "\<forall>t \<in> set tids. Thread t \<in> live ?w1 \<and> t \<in> cancelled ?w1" by auto
  from Cons.IH [OF this]
  have "join_all tids ?w1 =
     Inr (?w1\<lparr>live := live ?w1 - Thread ` set tids, cancelled := cancelled ?w1 - set tids\<rparr>)" .
  moreover have "?w1\<lparr>live := live ?w1 - Thread ` set tids, cancelled := cancelled ?w1 - set tids\<rparr>
     = w\<lparr>live := live w - Thread ` set (tid # tids),
          cancelled := cancelled w - set (tid # tids)\<rparr>"
    by (rule world.equality) auto
  ultimately show ?case using j by simp
qed

lemma threads_stopped:
  assumes "distinct tids" "\<forall>tid \<in> set tids. Thread tid \<in> live w"
  shows "join_all tids (fold pthread_cancel tids w) =
     Inr (w\<lparr>live := live w - Thread ` set tids, cancelled := cancelled w - set tids\<rparr>)"
proof -
  let ?w0 = "w\<lparr>cancelled := cancelled w \<union> set tids\<rparr>"
  have "join_all tids ?w0 =
     Inr (?w0\<lparr>live := live ?w0 - Thread ` set tids, cancelled := cancelled ?w0 - set tids\<rparr>)"
    using assms by (intro join_all_ok) simp_all
  moreover have "?w0\<lparr>live := live ?w0 - Thread ` set tids, cancelled := cancelled ?w0 - set tids\<rparr>
     = w\<lparr>live := live w - Thread ` set tids, cancelled := cancelled w - set tids\<rparr>"
    by (rule world.equality) auto
  ultimately show ?thesis using assms(2) by (simp add: cancel_fold)
qed


lemma started_workers:
  assumes "qthread p \<noteq> None" "0 \<le> numOfThreads p" "length (workers p) = nat (numOfThreads p)"
    "NULL \<notin> set (workers p)"
  shows "started p = Inr (workers p)"
proof -
  from assms(1) obtain tab where tab: "qthread p = Some tab" by blast
  with assms(3) have "nat (numOfThreads p) \<le> length tab" by (simp add: workers_def)
  moreover have "\<forall>tid \<in> set (workers p). tid \<noteq> NULL" using assms(4) by metis
  then have "filter (\<lambda>tid. tid \<noteq> NULL) (workers p) = workers p"
    by (intro filter_True) blast
  ultimately show ?thesis using tab by (simp add: started_def workers_def)
qed

lemma release_live: "r \<in> live w \<Longrightarrow> release r w = w\<lparr>live := live w - {r}\<rparr>"
  by (simp add: release_def)

lemma release_dead: "r \<notin> live w \<Longrightarrow> release r w = w\<lparr>misused := misused w @ [r]\<rparr>"
  by (simp add: release_def)

lemma release_fold:
  "distinct rs \<Longrightarrow>
   fold release rs w =
     w\<lparr>live := live w - set rs, misused := misused w @ filter (\<lambda>r. r \<notin> live w) rs\<rparr>"
proof (induction rs arbitrary: w)
  case Nil
  then show ?case by simp
next
  case (Cons r rs)
  then have d: "distinct rs" and n: "r \<notin> set rs" by simp_all
  show ?case
  proof (cases "r \<in> live w")
    case True
    let ?w1 = "w\<lparr>live := live w - {r}\<rparr>"
    have f: "filter (\<lambda>x. x \<notin> live ?w1) rs = filter (\<lambda>x. x \<notin> live w) rs"
      using n by (intro filter_cong) auto
    have "fold release rs ?w1 =
        ?w1\<lparr>live := live ?w1 - set rs, misused := misused ?w1 @ filter (\<lambda>x. x \<notin> live ?w1) rs\<rparr>"
      by (rule Cons.IH [OF d])
    also have "\<dots> = w\<lparr>live := live w - set (r # rs),
                       misused := misused w @ filter (\<lambda>x. x \<notin> live w) (r # rs)\<rparr>"
      unfolding f using True by (intro world.equality) auto
    finally show ?thesis using True by (simp add: release_live)
  next
    case False
    let ?w1 = "w\<lparr>misused := misused w @ [r]\<rparr>"
    have "fold release rs ?w1 =
        ?w1\<lparr>live := live ?w1 - set rs, misused := misused ?w1 @ filter (\<lambda>x. x \<notin> live ?w1) rs\<rparr>"
      by (rule Cons.IH [OF d])
    also have "\<dots> = w\<lparr>live := live w - set (r # rs),
                       misused := misused w @ filter (\<lambda>x. x \<notin> live w) (r # rs)\<rparr>"
      using False by (intro world.equality) auto
    finally show ?thesis using False by (simp add: release_dead)
  qed
qed

lemma release_uLog: "release r (uLog x w) = uLog x (release r w)"
  by (simp add: release_def uLog_def)

lemma destroy_rest_fold:
  "destroy_rest h p w =
     (fold release (relinquished h p) w)
       \<lparr>heap := (heap w)(h := None),
        oslog := oslog w @ (if pTimer p \<noteq> NULL then [TmrStop (pTimer p)] else [])\<rparr>"
proof -
  have l: "oslog (release r v) = oslog v" "heap (release r v) = heap v" for r v
    by (simp_all add: release_def)
  show ?thesis
    by (cases "pTimer p = NULL"; cases "queue p = None"; cases "qthread p = None")
      (simp_all add: destroy_rest_def relinquished_def Let_def release_uLog l,
       simp_all add: uLog_def l)
qed

lemma destroy_rest_eq:
  "destroy_rest h p w =
     w\<lparr>heap := (heap w)(h := None),
       live := live w - set (relinquished h p),
       misused := misused w @ filter (\<lambda>r. r \<notin> live w) (relinquished h p),
       oslog := oslog w @ (if pTimer p \<noteq> NULL then [TmrStop (pTimer p)] else [])\<rparr>"
proof -
  have "distinct (relinquished h p)" by (simp add: relinquished_def)
  then show ?thesis by (simp add: destroy_rest_fold release_fold)
qed

lemma cleanup_valid:
  assumes v: "valid_handle w h" and p: "heap w h = Some p"
  shows "taosCleanUpScheduler h w =
     Inr (w\<lparr>heap := (heap w)(h := None), live := live w - resources_of h p,
             cancelled := cancelled w - set (workers p),
             oslog := oslog w @ (if pTimer p \<noteq> NULL then [TmrStop (pTimer p)] else [])\<rparr>)"
proof -
  from v p have h: "h \<noteq> NULL" and q: "queue p \<noteq> None" "qthread p \<noteq> None"
    and n: "0 \<le> numOfThreads p" "length (workers p) = nat (numOfThreads p)"
    and d: "distinct (workers p)" "NULL \<notin> set (workers p)"
    and r: "resources_of h p \<subseteq> live w"
    by (simp_all add: valid_handle_def)
  let ?w1 = "w\<lparr>live := live w - Thread ` set (workers p),
                cancelled := cancelled w - set (workers p)\<rparr>"
  have st: "started p = Inr (workers p)" using q n d by (intro started_workers)
  have "\<forall>tid \<in> set (workers p). Thread tid \<in> live w" using r by (auto simp: resources_of_def)
  from threads_stopped [OF d(1) this]
  have j: "join_all (workers p) (fold pthread_cancel (workers p) w) = Inr ?w1" .
  have rel: "set (relinquished h p) \<subseteq> live w"
    using r q by (auto simp: resources_of_def relinquished_def)
  have nt: "set (relinquished h p) \<inter> Thread ` set (workers p) = {}"
    by (auto simp: relinquished_def)
  have "filter (\<lambda>r. r \<notin> live ?w1) (relinquished h p) = []"
    using rel nt by (auto simp: filter_empty_conv)
  moreover have "live w - Thread ` set (workers p) - set (relinquished h p)
      = live w - resources_of h p"
    using q by (auto simp: resources_of_def relinquished_def)
  ultimately have "destroy_rest h p ?w1 =
     w\<lparr>heap := (heap w)(h := None), live := live w - resources_of h p,
       cancelled := cancelled w - set (workers p),
       oslog := oslog w @ (if pTimer p \<noteq> NULL then [TmrStop (pTimer p)] else [])\<rparr>"
    by (simp add: destroy_rest_eq)
  with h p st j show ?thesis by (simp add: taosCleanUpScheduler_def)
qed


text \<open>The sample scheduler is what the constructor builds in the empty world.\<close>

lemma demo_built: "taosInitScheduler all_ok 2 1 ''demo'' world0 = Inr (1, demo_up)"
  by (auto simp: taosInitScheduler_def Let_def all_ok_def world0_def poke_def acquire_def
      uLog_def zeroSched_def demo_sched_def demo_up_def numeral_eq_Suc pthread_mutex_init_def
      intro!: world.equality)

lemma demo_valid: "valid_handle demo_up 1 \<and> heap demo_up 1 = Some demo_sched"
  by (simp add: valid_handle_def demo_up_def demo_sched_def workers_def resources_of_def)

text \<open>
  Claim C7, as stated, makes a repeated shutdown on the same handle a safe no-op. The
  handle is passed by value and the object it points to is freed by the first call, so
  the second call reads freed memory: on the sample scheduler the first shutdown
  succeeds and the second is the fault \<open>UseAfterFree\<close>, not the world unchanged.
\<close>

theorem C7_counterexample:
  "taosInitScheduler all_ok 2 1 ''demo'' world0 = Inr (1, demo_up)
   \<and> taosCleanUpScheduler 1 demo_up = Inr demo_down
   \<and> taosCleanUpScheduler 1 demo_down = Inl UseAfterFree
   \<and> taosCleanUpScheduler 1 demo_down \<noteq> Inr demo_down"
proof -
  have "taosCleanUpScheduler 1 demo_up = Inr demo_down"
    using cleanup_valid [of demo_up 1 demo_sched] demo_valid
    by (auto simp: demo_up_def demo_down_def demo_sched_def workers_def resources_of_def
        intro!: world.equality)
  moreover have "taosCleanUpScheduler 1 demo_down = Inl UseAfterFree"
    by (simp add: taosCleanUpScheduler_def demo_down_def)
  ultimately show ?thesis using demo_built by simp
qed

text \<open>
  Claim C7, amended. \<open>taosCleanUpScheduler\<close> on the \<open>NULL\<close> handle changes nothing.
  On a valid handle it returns, and then every worker of the object has been cancelled
  and joined and is no longer running, both semaphores, the mutex, the timer
  registration (if any), the slot buffer and the thread table are released, the object
  itself is freed, and no resource was touched that was not in use. The handle dangles
  from then on: a second call with it is not a no-op but a read of freed memory.
\<close>

theorem C7_shutdown:
  "taosCleanUpScheduler NULL w = Inr w
   \<and> (valid_handle w h \<and> heap w h = Some p \<longrightarrow>
        (let w' = w\<lparr>heap := (heap w)(h := None), live := live w - resources_of h p,
                    cancelled := cancelled w - set (workers p),
                    oslog := oslog w @ (if pTimer p \<noteq> NULL then [TmrStop (pTimer p)] else [])\<rparr>
         in taosCleanUpScheduler h w = Inr w'
            \<and> (\<forall>tid \<in> set (workers p). Thread tid \<notin> live w')
            \<and> live w' \<inter> resources_of h p = {}
            \<and> heap w' h = None
            \<and> misused w' = misused w
            \<and> taosCleanUpScheduler h w' = Inl UseAfterFree))"
proof -
  let ?w' = "w\<lparr>heap := (heap w)(h := None), live := live w - resources_of h p,
                cancelled := cancelled w - set (workers p),
                oslog := oslog w @ (if pTimer p \<noteq> NULL then [TmrStop (pTimer p)] else [])\<rparr>"
  have a: "taosCleanUpScheduler NULL w = Inr w" by (simp add: taosCleanUpScheduler_def)
  have b: "taosCleanUpScheduler h w = Inr ?w'
      \<and> (\<forall>tid \<in> set (workers p). Thread tid \<notin> live ?w')
      \<and> live ?w' \<inter> resources_of h p = {}
      \<and> heap ?w' h = None \<and> misused ?w' = misused w
      \<and> taosCleanUpScheduler h ?w' = Inl UseAfterFree"
    if v: "valid_handle w h" "heap w h = Some p"
  proof -
    from cleanup_valid [OF v] have c: "taosCleanUpScheduler h w = Inr ?w'" .
    from v(1) have "h \<noteq> NULL" by (simp add: valid_handle_def)
    then have d: "taosCleanUpScheduler h ?w' = Inl UseAfterFree"
      by (simp add: taosCleanUpScheduler_def)
    have e: "\<forall>tid \<in> set (workers p). Thread tid \<notin> live ?w'"
      by (simp add: resources_of_def)
    have f: "live ?w' \<inter> resources_of h p = {}" by auto
    from c d e f show ?thesis by simp
  qed
  from a b show ?thesis unfolding Let_def by blast
qed

theorem C7_shutdown_witness:
  "valid_handle demo_up 1 \<and> heap demo_up 1 = Some demo_sched
   \<and> taosCleanUpScheduler 1 demo_up = Inr demo_down
   \<and> live demo_down = {} \<and> taosCleanUpScheduler 1 demo_down = Inl UseAfterFree"
proof -
  have e: "demo_up\<lparr>heap := (heap demo_up)(1 := None),
                  live := live demo_up - resources_of 1 demo_sched,
                  cancelled := cancelled demo_up - set (workers demo_sched),
                  oslog := oslog demo_up @
                    (if pTimer demo_sched \<noteq> NULL then [TmrStop (pTimer demo_sched)] else [])\<rparr>
        = demo_down"
    by (auto simp: demo_up_def demo_down_def demo_sched_def workers_def resources_of_def
        intro!: world.equality)
  from C7_shutdown [of demo_up 1 demo_sched] demo_valid e show ?thesis
    by (simp add: Let_def demo_down_def)
qed

subsection \<open>The diagnostic reporter\<close>

text \<open>For a queue of at most \<open>2 ^ 30\<close> slots the C expression of line 217 does not
  overflow and is the occupancy of the specification.\<close>

lemma queued_occupied:
  assumes "0 \<le> emptySlot p" "emptySlot p < queueSize p" "0 \<le> fullSlot p"
    "fullSlot p < queueSize p" "queueSize p \<le> 2 ^ 30"
  shows "queued p = occupied p"
proof -
  have "int32 (emptySlot p - fullSlot p) = emptySlot p - fullSlot p"
    using assms by (intro int32_id) simp_all
  moreover have "int32 (emptySlot p - fullSlot p + queueSize p)
      = emptySlot p - fullSlot p + queueSize p"
    using assms by (intro int32_id) simp_all
  ultimately show ?thesis using assms by (simp add: queued_def occupied_def smod_nonneg)
qed

text \<open>
  Claim C9 (firing contract of the diagnostic reporter). On a handle that is not
  \<open>NULL\<close>: when the stored registration is \<open>NULL\<close> or differs from the token that
  fired, the call changes nothing. When they match, the occupancy is
  \<open>(emptySlot - fullSlot + Q) mod Q\<close>, one record with label, occupancy and worker
  count is logged exactly when the occupancy is not zero, and the reporter registers
  itself again for 30000 milliseconds; of the object only \<open>pTimer\<close> changes, so cursors,
  slots and semaphores are as before.
\<close>

theorem C9_dump_firing:
  assumes "qhandle \<noteq> NULL" "heap w qhandle = Some p"
  shows "(pTimer p = NULL \<or> pTimer p \<noteq> tmrId \<longrightarrow>
            taosDumpSchedulerStatus tok qhandle tmrId w = Inr w)
     \<and> (pTimer p \<noteq> NULL \<and> pTimer p = tmrId
          \<and> 0 \<le> emptySlot p \<and> emptySlot p < queueSize p
          \<and> 0 \<le> fullSlot p \<and> fullSlot p < queueSize p \<and> queueSize p \<le> 2 ^ 30 \<longrightarrow>
            queued p = occupied p
            \<and> taosDumpSchedulerStatus tok qhandle tmrId w =
                Inr (w\<lparr>heap := (heap w)(qhandle \<mapsto> p\<lparr>pTimer := tok\<rparr>),
                        live := insert (Timer tok) (live w - {Timer tmrId}),
                        oslog := oslog w
                          @ (if occupied p \<noteq> 0
                             then [UTraceDump (label p) (occupied p) (numOfThreads p)] else [])
                          @ [TmrReset DumpSchedulerStatus 30000 qhandle (pTmrCtrl p)]\<rparr>))"
proof -
  have "0 \<le> occupied p" if "0 < queueSize p" using that by (simp add: occupied_def)
  then show ?thesis
    using assms
    by (auto simp: taosDumpSchedulerStatus_def taosTmrReset_def uLog_def queued_occupied
        DUMP_SCHEDULER_TIME_WINDOW_def)
qed

theorem C9_dump_firing_witness:
  "taosDumpSchedulerStatus 8 1 5 (demo_up\<lparr>heap := (heap demo_up)(1 \<mapsto> demo_sched\<lparr>pTimer := 7\<rparr>)\<rparr>)
     = Inr (demo_up\<lparr>heap := (heap demo_up)(1 \<mapsto> demo_sched\<lparr>pTimer := 7\<rparr>)\<rparr>)
   \<and> taosDumpSchedulerStatus 8 1 7
       (demo_up\<lparr>heap := (heap demo_up)(1 \<mapsto> demo_sched\<lparr>pTimer := 7, emptySlot := 1\<rparr>)\<rparr>)
     = Inr (demo_up\<lparr>heap := (heap demo_up)(1 \<mapsto> demo_sched\<lparr>pTimer := 8, emptySlot := 1\<rparr>),
              live := insert (Timer 8) (live demo_up - {Timer 7}),
              oslog := oslog demo_up @ [UTraceDump ''demo'' 1 1,
                 TmrReset DumpSchedulerStatus 30000 1 NULL]\<rparr>)"
  using C9_dump_firing [of 1 "demo_up\<lparr>heap := (heap demo_up)(1 \<mapsto> demo_sched\<lparr>pTimer := 7\<rparr>)\<rparr>"
      "demo_sched\<lparr>pTimer := 7\<rparr>" 5 8]
    C9_dump_firing [of 1
      "demo_up\<lparr>heap := (heap demo_up)(1 \<mapsto> demo_sched\<lparr>pTimer := 7, emptySlot := 1\<rparr>)\<rparr>"
      "demo_sched\<lparr>pTimer := 7, emptySlot := 1\<rparr>" 7 8]
  by (simp add: demo_sched_def occupied_def demo_up_def)


subsection \<open>Construction\<close>

text \<open>The loop that starts the workers: it stops at the first \<open>pthread_create\<close> that
  fails, and the threads it has started are exactly the fresh entries of the table.\<close>

lemma create_threads_inv:
  assumes "heap w a = Some p" "qthread p = Some tab" "numOfThreads p = int k"
    and "k \<le> n" "n \<le> length tab"
    and "distinct (take k tab)" "\<forall>tid \<in> set (take k tab). tid \<le> brk w"
  shows "\<exists>ok w' tab' k'. create_threads env a [k..<n] w = Inr (ok, w')
     \<and> heap w' = (heap w)(a \<mapsto> p\<lparr>qthread := Some tab', numOfThreads := int k'\<rparr>)
     \<and> length tab' = length tab \<and> k \<le> k' \<and> k' \<le> n
     \<and> (ok \<longleftrightarrow> (\<forall>i. k \<le> i \<and> i < n \<longrightarrow> env (CreateThread i)))
     \<and> distinct (take k' tab') \<and> set (take k' tab') = set (take k tab) \<union> {brk w<..brk w'}
     \<and> brk w \<le> brk w'
     \<and> live w' = live w \<union> Thread ` {brk w<..brk w'}
     \<and> cancelled w' = cancelled w \<and> misused w' = misused w \<and> oslog w' = oslog w"
  using assms
proof (induction "n - k" arbitrary: k w p tab)
  case 0
  then have kn: "k = n" by simp
  then have e: "create_threads env a [k..<n] w = Inr (True, w)" by simp
  have "heap w = (heap w)(a \<mapsto> p\<lparr>qthread := Some tab, numOfThreads := int k\<rparr>)"
    using "0.prems"(1,2,3) by (auto simp: fun_eq_iff)
  with e kn "0.prems"(6) show ?case
    by (intro exI [of _ True] exI [of _ w] exI [of _ tab] exI [of _ k]) auto
next
  case (Suc m)
  then have lt: "k < n" and upt: "[k..<n] = k # [Suc k..<n]" by (simp_all add: upt_conv_Cons)
  show ?case
  proof (cases "env (CreateThread k)")
    case False
    with upt have e: "create_threads env a [k..<n] w = Inr (False, w)" by simp
    have "heap w = (heap w)(a \<mapsto> p\<lparr>qthread := Some tab, numOfThreads := int k\<rparr>)"
      using Suc.prems(1,2,3) by (auto simp: fun_eq_iff)
    with e lt False Suc.prems(6) show ?thesis
      by (intro exI [of _ False] exI [of _ w] exI [of _ tab] exI [of _ k]) auto
  next
    case True
    let ?tid = "Suc (brk w)"
    let ?tab1 = "tab[k := ?tid]"
    let ?p1 = "p\<lparr>qthread := Some ?tab1, numOfThreads := numOfThreads p + 1\<rparr>"
    let ?w1 = "acquire (Thread ?tid) (w\<lparr>heap := (heap w)(a \<mapsto> ?p1), brk := ?tid\<rparr>)"
    have kl: "k < length tab" using lt Suc.prems(5) by simp
    from upt True Suc.prems(1,2) kl
    have r: "create_threads env a [k..<n] w = create_threads env a [Suc k..<n] ?w1" by simp
    have tk: "take (Suc k) ?tab1 = take k tab @ [?tid]"
      using kl by (simp add: take_Suc_conv_app_nth)
    have m: "m = n - Suc k" using Suc.hyps(2) by simp
    have p1: "heap ?w1 a = Some ?p1" "qthread ?p1 = Some ?tab1"
      "numOfThreads ?p1 = int (Suc k)" "Suc k \<le> n" "n \<le> length ?tab1"
      using Suc.prems(3,5) lt by (simp_all add: acquire_def)
    have d1: "distinct (take (Suc k) ?tab1)" "\<forall>tid \<in> set (take (Suc k) ?tab1). tid \<le> brk ?w1"
      using Suc.prems(6,7) by (auto simp: tk acquire_def)
    from Suc.hyps(1) [OF m p1 d1] obtain ok w' tab' k' where
      c: "create_threads env a [Suc k..<n] ?w1 = Inr (ok, w')" and
      IH: "heap w' = (heap ?w1)(a \<mapsto> ?p1\<lparr>qthread := Some tab', numOfThreads := int k'\<rparr>)"
      "length tab' = length ?tab1" "Suc k \<le> k'" "k' \<le> n"
      "ok \<longleftrightarrow> (\<forall>i. Suc k \<le> i \<and> i < n \<longrightarrow> env (CreateThread i))"
      "distinct (take k' tab')" "set (take k' tab') = set (take (Suc k) ?tab1) \<union> {brk ?w1<..brk w'}"
      "brk ?w1 \<le> brk w'"
      "live w' = live ?w1 \<union> Thread ` {brk ?w1<..brk w'}"
      "cancelled w' = cancelled ?w1" "misused w' = misused ?w1" "oslog w' = oslog ?w1"
      by blast
    have b1: "brk ?w1 = Suc (brk w)" by (simp add: acquire_def)
    have iv: "insert (Suc (brk w)) {Suc (brk w)<..brk w'} = {brk w<..brk w'}"
      using IH(8) b1 by auto
    have 1: "heap w' = (heap w)(a \<mapsto> p\<lparr>qthread := Some tab', numOfThreads := int k'\<rparr>)"
      using IH(1) by (simp add: acquire_def)
    have 2: "ok \<longleftrightarrow> (\<forall>i. k \<le> i \<and> i < n \<longrightarrow> env (CreateThread i))"
      using IH(5) True by (metis Suc_leI le_neq_implies_less Suc_leD)
    have 3: "set (take k' tab') = set (take k tab) \<union> {brk w<..brk w'}"
      using IH(7) iv unfolding tk b1 by auto
    have 4: "live w' = live w \<union> Thread ` {brk w<..brk w'}"
      using IH(9) iv by (auto simp: acquire_def)
    show ?thesis
      using r c 1 2 3 4 IH(2,3,4,6,8,10,11,12) b1
      by (intro exI [of _ ok] exI [of _ w'] exI [of _ tab'] exI [of _ k'])
        (auto simp: acquire_def)
  qed
qed


lemma fail_init_NULL: "fail_init what a w = Inr (h, w') \<Longrightarrow> h = NULL"
  by (auto simp: fail_init_def split: sum.splits)

lemma init_unfold:
  assumes "env AllocSched" "env AllocQueue" "0 \<le> Q" "env AllocThreadTable" "0 \<le> n"
    "env InitMutex" "env (InitSem EmptySem)" "env (InitSem FullSem)"
  shows "taosInitScheduler env Q n lbl w =
     (case create_threads env (Suc (brk w)) [0..<nat n] (armed Q n lbl w) of
        Inl f \<Rightarrow> Inl f
      | Inr (all_started, w8) \<Rightarrow>
          if all_started
          then Inr (Suc (brk w),
                 case heap w8 (Suc (brk w)) of
                   None \<Rightarrow> w8
                 | Some p \<Rightarrow> uLog (UTraceInit lbl (numOfThreads p)) w8)
          else fail_init ''failed to create rpc thread'' (Suc (brk w)) w8)"
proof -
  have "acquire (Semaphore (Suc (brk w)) FullSem)
          (poke (Suc (brk w)) (\<lambda>p. p\<lparr>fullSem := 0\<rparr>)
            (acquire (Semaphore (Suc (brk w)) EmptySem)
              (poke (Suc (brk w)) (\<lambda>p. p\<lparr>emptySem := nat (queueSize p mod 2 ^ 32)\<rparr>)
                (acquire (Mutex (Suc (brk w)))
                  (poke (Suc (brk w)) (\<lambda>p. p\<lparr>queueMutex := None\<rparr>)
                    (poke (Suc (brk w))
                      (\<lambda>p. p\<lparr>queueSize := Q, label := take 15 lbl, fullSlot := 0, emptySlot := 0\<rparr>)
                      (acquire (ThreadTable (Suc (brk w)))
                        (poke (Suc (brk w)) (\<lambda>p. p\<lparr>qthread := Some (replicate (nat n) NULL)\<rparr>)
                          (acquire (Queue (Suc (brk w)))
                            (poke (Suc (brk w))
                              (\<lambda>p. p\<lparr>queue := Some (replicate (nat Q) zeroMsg)\<rparr>)
                              (w\<lparr>heap := (heap w)(Suc (brk w) \<mapsto> zeroSched),
                                 brk := Suc (brk w)\<rparr>)))))))))))
        = armed Q n lbl w"
    by (auto simp: armed_def built_def poke_def acquire_def zeroSched_def fun_eq_iff
        intro!: world.equality)
  with assms show ?thesis
    by (simp add: taosInitScheduler_def Let_def pthread_mutex_init_def)
qed

lemma init_threads:
  assumes s: "sane w"
    and f: "env AllocSched" "env AllocQueue" "0 \<le> Q" "env AllocThreadTable" "0 \<le> n"
      "env InitMutex" "env (InitSem EmptySem)" "env (InitSem FullSem)"
  shows "\<exists>h w'. taosInitScheduler env Q n lbl w = Inr (h, w')
     \<and> (h = NULL \<longleftrightarrow> \<not> (\<forall>i < nat n. env (CreateThread i)))
     \<and> (h = NULL \<longrightarrow> heap w' = heap w \<and> live w' = live w \<and> cancelled w' = cancelled w
            \<and> misused w' = misused w)
     \<and> (h \<noteq> NULL \<longrightarrow> valid_handle w' h \<and> misused w' = misused w)"
proof -
  let ?a = "Suc (brk w)"
  let ?w7 = "armed Q n lbl w"
  let ?p7 = "built Q n lbl"
  let ?msg = "''failed to create rpc thread''"
  have p7: "heap ?w7 ?a = Some ?p7" "qthread ?p7 = Some (replicate (nat n) NULL)"
    "numOfThreads ?p7 = int 0" "0 \<le> nat n" "nat n \<le> length (replicate (nat n) NULL)"
    "distinct (take 0 (replicate (nat n) NULL))"
    "\<forall>tid \<in> set (take 0 (replicate (nat n) NULL)). tid \<le> brk ?w7"
    by (simp_all add: armed_def built_def zeroSched_def)
  from create_threads_inv [OF p7, of env] obtain ok w8 tab' k' where
    c: "create_threads env ?a [0..<nat n] ?w7 = Inr (ok, w8)" and
    I: "heap w8 = (heap ?w7)(?a \<mapsto> ?p7\<lparr>qthread := Some tab', numOfThreads := int k'\<rparr>)"
      "length tab' = nat n" "k' \<le> nat n"
      "ok \<longleftrightarrow> (\<forall>i < nat n. env (CreateThread i))"
      "distinct (take k' tab')" "set (take k' tab') = {brk ?w7<..brk w8}"
      "brk ?w7 \<le> brk w8"
      "live w8 = live ?w7 \<union> Thread ` {brk ?w7<..brk w8}"
      "cancelled w8 = cancelled ?w7" "misused w8 = misused ?w7"
    by auto
  let ?p8 = "?p7\<lparr>qthread := Some tab', numOfThreads := int k'\<rparr>"
  have h8: "heap w8 ?a = Some ?p8" using I(1) by simp
  have wk: "workers ?p8 = take k' tab'" by (simp add: workers_def)
  have p8: "pTimer ?p8 = NULL" "queue ?p8 \<noteq> None" "qthread ?p8 \<noteq> None"
    "numOfThreads ?p8 = int k'"
    by (simp_all add: built_def zeroSched_def)
  have b7: "brk ?w7 = ?a" by (simp add: armed_def)
  have res: "resources_of ?a ?p8 =
      {Queue ?a, ThreadTable ?a, Mutex ?a, Semaphore ?a EmptySem, Semaphore ?a FullSem}
        \<union> Thread ` {?a<..brk w8}"
    unfolding resources_of_def wk I(6) b7 p8(1) by simp
  have l8: "live w8 = live w
        \<union> {Queue ?a, ThreadTable ?a, Mutex ?a, Semaphore ?a EmptySem, Semaphore ?a FullSem}
        \<union> Thread ` {?a<..brk w8}"
    using I(8) by (simp add: armed_def)
  have v: "valid_handle (w8\<lparr>oslog := lg\<rparr>) ?a" for lg
  proof -
    have "length (workers ?p8) = nat (numOfThreads ?p8)" using I(2,3) p8(4) by (simp add: wk)
    moreover have "NULL \<notin> set (workers ?p8)" unfolding wk I(6) by simp
    moreover have "distinct (workers ?p8)" using I(5) by (simp add: wk)
    moreover have "resources_of ?a ?p8 \<subseteq> live (w8\<lparr>oslog := lg\<rparr>)"
      unfolding res using l8 by auto
    ultimately show ?thesis using h8 p8 by (simp add: valid_handle_def)
  qed
  have u: "taosInitScheduler env Q n lbl w =
      (if ok then Inr (?a, uLog (UTraceInit lbl (int k')) w8) else fail_init ?msg ?a w8)"
    using f c h8 p8(4) by (simp add: init_unfold)
  show ?thesis
  proof (cases ok)
    case True
    with u I(4,10) v [of "oslog w8 @ [UTraceInit lbl (int k')]"] show ?thesis
      by (simp add: uLog_def armed_def)
  next
    case False
    let ?w9 = "w8\<lparr>oslog := oslog w8 @ [UError ?msg]\<rparr>"
    have h9: "heap ?w9 ?a = Some ?p8" using h8 by simp
    from s have fresh: "heap w ?a = None" "\<And>x. brk w < x \<Longrightarrow> x \<notin> cancelled w"
      "\<And>x. brk w < x \<Longrightarrow> Thread x \<notin> live w"
      "Queue ?a \<notin> live w" "ThreadTable ?a \<notin> live w" "Mutex ?a \<notin> live w"
      "Semaphore ?a EmptySem \<notin> live w" "Semaphore ?a FullSem \<notin> live w"
      by (simp_all add: sane_def)
    have hp: "(heap w8)(?a := None) = heap w"
      using I(1) fresh(1) by (auto simp: armed_def fun_eq_iff)
    have lv: "live w8 - resources_of ?a ?p8 = live w"
      unfolding res l8 using fresh(3-8) by auto
    have cn: "cancelled w8 - set (workers ?p8) = cancelled w"
      unfolding wk I(6) b7 using I(9) fresh(2) by (auto simp: armed_def)
    from cleanup_valid [OF v h9] have "fail_init ?msg ?a w8 =
      Inr (NULL, ?w9\<lparr>heap := (heap ?w9)(?a := None), live := live ?w9 - resources_of ?a ?p8,
             cancelled := cancelled ?w9 - set (workers ?p8),
             oslog := oslog ?w9 @ (if pTimer ?p8 \<noteq> NULL then [TmrStop (pTimer ?p8)] else [])\<rparr>)"
      by (simp add: fail_init_def uLog_def)
    with u False I(4,10) hp lv cn p8(1) show ?thesis by (simp add: armed_def)
  qed
qed


lemma init_early:
  assumes s: "sane w" and a: "env AllocSched" and m: "env InitMutex"
    and n: "\<not> (env AllocQueue \<and> 0 \<le> Q \<and> env AllocThreadTable \<and> 0 \<le> n
               \<and> env (InitSem EmptySem) \<and> env (InitSem FullSem))"
  shows "\<exists>w'. taosInitScheduler env Q n lbl w = Inr (NULL, w')
     \<and> heap w' = heap w \<and> live w' = live w \<and> cancelled w' = cancelled w
     \<and> misused w' = misused w @ never_initialised env Q n (Suc (brk w))"
proof -
  let ?a = "Suc (brk w)"
  from s have fresh: "heap w ?a = None"
    "Queue ?a \<notin> live w" "ThreadTable ?a \<notin> live w" "Mutex ?a \<notin> live w"
    "Semaphore ?a EmptySem \<notin> live w" "Semaphore ?a FullSem \<notin> live w"
    by (simp_all add: sane_def)
  have hp: "(heap w)(?a := None) = heap w" using fresh(1) by (auto simp: fun_eq_iff)
  note defs = taosInitScheduler_def Let_def fail_init_def taosCleanUpScheduler_def started_def
    destroy_rest_eq relinquished_def uLog_def poke_def acquire_def zeroSched_def
    never_initialised_def pthread_mutex_init_def
  from n consider
      (q) "\<not> (env AllocQueue \<and> 0 \<le> Q)"
    | (t) "env AllocQueue" "0 \<le> Q" "\<not> (env AllocThreadTable \<and> 0 \<le> n)"
    | (e) "env AllocQueue" "0 \<le> Q" "env AllocThreadTable" "0 \<le> n"
          "\<not> env (InitSem EmptySem)"
    | (f) "env AllocQueue" "0 \<le> Q" "env AllocThreadTable" "0 \<le> n"
          "env (InitSem EmptySem)" "\<not> env (InitSem FullSem)"
    by blast
  then show ?thesis
  proof cases
    case q
    with a m fresh hp show ?thesis by (simp add: defs)
  next
    case t
    with a m fresh hp show ?thesis by (simp add: defs)
  next
    case e
    with a m fresh hp show ?thesis by (simp add: defs)
  next
    case f
    with a m fresh hp show ?thesis by (simp add: defs)
  qed
qed

lemma sane_world0: "sane world0"
  by (simp add: sane_def world0_def)

lemma demo_fails: "taosInitScheduler no_queue 2 1 ''demo'' world0 = Inr (NULL, demo_failed)"
  by (auto simp: taosInitScheduler_def Let_def fail_init_def taosCleanUpScheduler_def
      started_def destroy_rest_eq relinquished_def uLog_def poke_def acquire_def zeroSched_def
      no_queue_def world0_def demo_failed_def pthread_mutex_init_def intro!: world.equality)

text \<open>
  Claim C6, as stated, has a failing constructor tear down exactly what it had set up,
  never touching a resource not yet initialised. Every failure after the first
  allocation runs \<open>taosCleanUpScheduler\<close>, which destroys both semaphores and the mutex
  without asking whether they were initialised: when the slot buffer cannot be
  allocated, three objects that were never initialised are destroyed.
\<close>

theorem C6_counterexample:
  "taosInitScheduler no_queue 2 1 ''demo'' world0 = Inr (NULL, demo_failed)
   \<and> misused demo_failed = [Semaphore 1 EmptySem, Semaphore 1 FullSem, Mutex 1]
   \<and> misused demo_failed \<noteq> misused world0"
  using demo_fails by (simp add: demo_failed_def world0_def)

text \<open>
  Claim C6, amended. In a world where the fresh addresses are unused, and when the
  initialisation of the mutex succeeds, the constructor always returns, and it returns
  \<open>NULL\<close> exactly when one of its calls fails (handle, slot buffer or thread table
  allocation, initialisation of a semaphore, creation of any worker). On failure the heap, the resources in use and the pending cancellations
  are what they were before the call: everything acquired was released, the workers
  already started were cancelled and joined, and no memory block, thread or timer was
  touched that had not been acquired. The only calls on objects not yet initialised are
  the destroy calls of the shared cleanup routine on the semaphores and the mutex. On
  success the handle is valid.
\<close>

theorem C6_construction_all_or_nothing:
  assumes "sane w" and "env InitMutex"
  shows "case taosInitScheduler env Q n lbl w of
           Inl f \<Rightarrow> False
         | Inr (h, w') \<Rightarrow>
             (h = NULL \<longleftrightarrow> \<not> succeeds env Q n)
             \<and> (h = NULL \<longrightarrow>
                  heap w' = heap w \<and> live w' = live w \<and> cancelled w' = cancelled w
                  \<and> misused w' = misused w @ never_initialised env Q n (Suc (brk w)))
             \<and> (h \<noteq> NULL \<longrightarrow> valid_handle w' h \<and> misused w' = misused w)"
proof (cases "env AllocSched")
  case False
  then show ?thesis
    by (simp add: taosInitScheduler_def uLog_def succeeds_def never_initialised_def)
next
  case a: True
  show ?thesis
  proof (cases "env AllocQueue \<and> 0 \<le> Q \<and> env AllocThreadTable \<and> 0 \<le> n
               \<and> env (InitSem EmptySem) \<and> env (InitSem FullSem)")
    case False
    from init_early [OF assms(1) a assms(2) False, of lbl] False show ?thesis
      by (auto simp: succeeds_def)
  next
    case True
    then have f: "env AllocQueue" "0 \<le> Q" "env AllocThreadTable" "0 \<le> n"
      "env InitMutex" "env (InitSem EmptySem)" "env (InitSem FullSem)"
      using assms(2) by simp_all
    have "never_initialised env Q n (Suc (brk w)) = []"
      using a f by (simp add: never_initialised_def)
    with init_threads [OF assms(1) a f, of lbl] a f show ?thesis
      by (auto simp: succeeds_def)
  qed
qed

theorem C6_construction_all_or_nothing_witness:
  "sane world0 \<and> no_queue InitMutex \<and> \<not> succeeds no_queue 2 1
   \<and> taosInitScheduler no_queue 2 1 ''demo'' world0 = Inr (NULL, demo_failed)
   \<and> heap demo_failed = heap world0 \<and> live demo_failed = live world0
   \<and> all_ok InitMutex \<and> succeeds all_ok 2 1
   \<and> taosInitScheduler all_ok 2 1 ''demo'' world0 = Inr (1, demo_up)
   \<and> valid_handle demo_up 1"
proof -
  have m: "no_queue InitMutex" "all_ok InitMutex" by (simp_all add: no_queue_def all_ok_def)
  from C6_construction_all_or_nothing [of world0 no_queue 2 1 "''demo''", OF sane_world0 m(1)]
    C6_construction_all_or_nothing [of world0 all_ok 2 1 "''demo''", OF sane_world0 m(2)]
    demo_fails demo_built sane_world0 m
  show ?thesis
    by (simp add: succeeds_def no_queue_def all_ok_def demo_failed_def world0_def)
qed

text \<open>
  A failing \<open>pthread_mutex_init\<close> is outside the theorem above. It returns a positive
  error number, which the test \<open>< 0\<close> of line 70 lets pass: with every other call
  succeeding, the constructor returns a handle whose mutex was never initialised.
\<close>

lemma mutex_failure_undetected:
  "taosInitScheduler no_mutex 2 1 ''demo'' world0
     = Inr (1, demo_up\<lparr>live := live demo_up - {Mutex 1}\<rparr>)
   \<and> \<not> valid_handle (demo_up\<lparr>live := live demo_up - {Mutex 1}\<rparr>) 1"
  by (auto simp: taosInitScheduler_def Let_def no_mutex_def world0_def poke_def acquire_def
      uLog_def zeroSched_def demo_sched_def demo_up_def numeral_eq_Suc pthread_mutex_init_def
      valid_handle_def resources_of_def
      intro!: world.equality)

subsection \<open>Capacity and order\<close>

lemma cnt_idle: "\<forall>th \<in> set ths. idle th \<Longrightarrow>
  cnt holdsEmpty ths = 0 \<and> cnt wrote ths = 0 \<and> cnt holdsFull ths = 0 \<and> cnt took ths = 0"
proof (induction ths)
  case Nil
  then show ?case by (simp add: cnt_def)
next
  case (Cons a ths)
  then show ?case by (cases a) (auto simp: cnt_def)
qed

lemma idle_not_crit: "idle th \<Longrightarrow> \<not> in_crit th"
  by (cases th) auto

lemma inv_boot:
  assumes Q: "0 < queueSize p" "queueSize p < 2 ^ 31"
    and p: "emptySem p = nat (queueSize p)" "fullSem p = 0" "queueMutex p = None"
      "fullSlot p = 0" "emptySlot p = 0" "queue p = Some (replicate (nat (queueSize p)) zeroMsg)"
    and ths: "\<forall>th \<in> set ths. idle th"
  shows "queue_inv (boot p ths)"
proof -
  have "inv_mutex (boot p ths)"
    using p ths by (auto simp: inv_mutex_def boot_def dest!: idle_not_crit)
  moreover have "inv_sems (boot p ths)"
    using Q p cnt_idle [OF ths] by (simp add: inv_sems_def boot_def)
  moreover have "inv_cursors (boot p ths)"
    using Q p by (simp add: inv_cursors_def boot_def owner_has_def)
  ultimately show ?thesis
    using Q p by (simp add: queue_inv_def inv_shape_def inv_slots_def inv_fifo_def boot_def slots_of_def)
qed

lemma step_queueSize:
  assumes "step t oc s = Inr s'"
  shows "queueSize (sched s') = queueSize (sched s)"
  using assms
proof (cases rule: step_shape)
  case (worker pc lm pc' lm' p' evs)
  then show ?thesis by (cases pc; cases oc) (auto split: if_splits option.splits)
next
  case (producer pc h m rest pc' p' evs)
  then show ?thesis by (cases pc; cases oc) (auto split: if_splits option.splits)
qed

lemma exec_queueSize:
  "exec sch s = Inr s' \<Longrightarrow> queueSize (sched s') = queueSize (sched s)"
proof (induction sch arbitrary: s)
  case Nil
  then show ?case by simp
next
  case (Cons a sch)
  obtain t oc where a: "a = (t, oc)" by (cases a)
  from Cons.prems a obtain s1 where s1: "step t oc s = Inr s1" and r: "exec sch s1 = Inr s'"
    by (auto split: sum.splits)
  from Cons.IH [OF r] step_queueSize [OF s1] show ?case by simp
qed

lemma cnt_quiet: "\<forall>th \<in> set ths. \<not> P th \<Longrightarrow> cnt P ths = 0"
  by (induction ths) (auto simp: cnt_def)

lemma quiescent_in_flight: "quiescent s \<Longrightarrow> in_flight s = 0"
  by (simp add: quiescent_def in_flight_def cnt_quiet)

lemma create_threads_core:
  "create_threads env a idx w = Inr (ok, w') \<Longrightarrow> heap w a = Some p \<Longrightarrow>
   \<exists>tab k. heap w' a = Some (p\<lparr>qthread := tab, numOfThreads := k\<rparr>)"
proof (induction idx arbitrary: w p)
  case Nil
  then have "heap w' a = Some (p\<lparr>qthread := qthread p, numOfThreads := numOfThreads p\<rparr>)"
    by simp
  then show ?case by blast
next
  case (Cons i idx)
  show ?case
  proof (cases "env (CreateThread i)")
    case False
    with Cons.prems have "heap w' a = Some (p\<lparr>qthread := qthread p, numOfThreads := numOfThreads p\<rparr>)"
      by simp
    then show ?thesis by blast
  next
    case True
    with Cons.prems obtain tab where tab: "qthread p = Some tab" "i < length tab"
      and r: "create_threads env a idx
                (acquire (Thread (brk w + 1))
                   (w\<lparr>heap := (heap w)(a \<mapsto> p\<lparr>qthread := Some (tab[i := brk w + 1]),
                                        numOfThreads := numOfThreads p + 1\<rparr>),
                       brk := brk w + 1\<rparr>)) = Inr (ok, w')"
      by (auto split: option.splits if_splits)
    from Cons.IH [OF r, of "p\<lparr>qthread := Some (tab[i := brk w + 1]),
                                        numOfThreads := numOfThreads p + 1\<rparr>"]
    show ?thesis by (auto simp: acquire_def)
  qed
qed

lemma init_flags:
  assumes "taosInitScheduler env Q n lbl w = Inr (h, w')" "h \<noteq> NULL" "env InitMutex"
  shows "env AllocSched \<and> env AllocQueue \<and> 0 \<le> Q \<and> env AllocThreadTable \<and> 0 \<le> n
     \<and> env InitMutex \<and> env (InitSem EmptySem) \<and> env (InitSem FullSem)"
  using assms unfolding taosInitScheduler_def Let_def
  by (auto split: if_splits dest: fail_init_NULL)

lemma init_success:
  assumes "taosInitScheduler env Q n lbl w = Inr (h, w')" "h \<noteq> NULL" "env InitMutex"
  shows "\<exists>p. heap w' h = Some p \<and> emptySem p = nat (Q mod 2 ^ 32) \<and> fullSem p = 0
     \<and> queueMutex p = None \<and> fullSlot p = 0 \<and> emptySlot p = 0 \<and> queueSize p = Q
     \<and> queue p = Some (replicate (nat Q) zeroMsg) \<and> 0 \<le> Q \<and> pTimer p = NULL"
proof -
  let ?a = "Suc (brk w)"
  note f = init_flags [OF assms]
  have u: "taosInitScheduler env Q n lbl w =
     (case create_threads env ?a [0..<nat n] (armed Q n lbl w) of
        Inl f \<Rightarrow> Inl f
      | Inr (all_started, w8) \<Rightarrow>
          if all_started
          then Inr (?a,
                 case heap w8 ?a of
                   None \<Rightarrow> w8
                 | Some p \<Rightarrow> uLog (UTraceInit lbl (numOfThreads p)) w8)
          else fail_init ''failed to create rpc thread'' ?a w8)"
    using f by (intro init_unfold) simp_all
  from assms u obtain w8 where c: "create_threads env ?a [0..<nat n] (armed Q n lbl w) = Inr (True, w8)"
    and h: "h = ?a" and w': "heap w' = heap w8"
    by (auto simp: uLog_def split: sum.splits prod.splits if_splits option.splits
        dest: fail_init_NULL)
  have "heap (armed Q n lbl w) ?a = Some (built Q n lbl)" by (simp add: armed_def)
  from create_threads_core [OF c this] obtain tab k where
    "heap w8 ?a = Some ((built Q n lbl)\<lparr>qthread := tab, numOfThreads := k\<rparr>)" by blast
  with h w' f show ?thesis by (simp add: built_def zeroSched_def)
qed


lemma worker_writes_nothing:
  "taosProcessSchedQueue oc pc lm t p = Inr (pc', lm', p', evs) \<Longrightarrow>
   written (map (Pair t) evs) = []"
  by (cases pc; cases oc) (auto split: if_splits option.splits)

lemma producer_sends:
  assumes "taosScheduleTask oc pc h m t p = Inr (pc', p', evs)" "h \<noteq> NULL"
  shows "written (map (Pair t) evs)
           @ unsent (if pc' = P_Done then Producer P_Entry rest else Producer pc' ((h, m) # rest))
         = unsent (Producer pc ((h, m) # rest))"
  using assms by (cases pc; cases oc) (auto split: if_splits option.splits)

lemma single_step:
  assumes i: "inv_single tasks s" and st: "step t oc s = Inr s'"
  shows "inv_single tasks s'"
proof -
  from i obtain th0 ws where ths: "threads s = th0 # ws" and v: "valid_calls th0"
    and w: "\<forall>th \<in> set ws. is_worker th" and e: "written (trace s) @ unsent th0 = tasks"
    by (cases "threads s") (auto simp: inv_single_def)
  from st show ?thesis
  proof (cases rule: step_shape)
    case (worker pc lm pc' lm' p' evs)
    with ths v obtain t' where t': "t = Suc t'" "t' < length ws" by (cases t) auto
    have "written (map (Pair t) evs) = []" using worker(3) by (rule worker_writes_nothing)
    moreover have "\<forall>th \<in> set (ws[t' := Worker pc' lm']). is_worker th"
      using w by (auto dest!: set_update_subset_insert [THEN subsetD])
    ultimately show ?thesis
      using worker(4) ths t' v e by (simp add: inv_single_def written_append)
  next
    case (producer pc h m rest pc' p' evs)
    have t0: "t = 0"
    proof (cases t)
      case (Suc t')
      with producer(1,2) ths w have "is_worker (Producer pc ((h, m) # rest))"
        by (metis length_Cons not_less_eq nth_Cons_Suc nth_mem)
      then show ?thesis by simp
    qed simp
    with producer(2) ths have th0: "th0 = Producer pc ((h, m) # rest)" by simp
    with v have h: "h \<noteq> NULL" and vr: "\<forall>c \<in> set rest. fst c \<noteq> NULL" by simp_all
    from producer_sends [OF producer(3) h, of rest] e th0
    have "written (trace s) @ written (map (Pair t) evs)
           @ unsent (if pc' = P_Done then Producer P_Entry rest else Producer pc' ((h, m) # rest))
          = tasks" by simp
    then show ?thesis
      using producer(4) ths t0 w h vr by (simp add: inv_single_def written_append)
  qed
qed

lemma single_exec:
  "inv_single tasks s \<Longrightarrow> exec sch s = Inr s' \<Longrightarrow> inv_single tasks s'"
proof (induction sch arbitrary: s)
  case Nil
  then show ?case by simp
next
  case (Cons a sch)
  obtain t oc where a: "a = (t, oc)" by (cases a)
  from Cons.prems a obtain s1 where s1: "step t oc s = Inr s1" and r: "exec sch s1 = Inr s'"
    by (auto split: sum.splits)
  from Cons.IH [OF single_step [OF Cons.prems(1) s1] r] show ?case .
qed

lemma boot_after_init:
  assumes init: "taosInitScheduler env Q n lbl w = Inr (h, w')" "h \<noteq> NULL" "heap w' h = Some p"
    and mi: "env InitMutex"
    and Q: "1 \<le> Q" "Q < 2 ^ 31"
    and ths: "\<forall>th \<in> set ths. idle th"
  shows "queue_inv (boot p ths) \<and> emptySem p = nat Q \<and> fullSem p = 0 \<and> queueSize p = Q"
proof -
  from init_success [OF init(1,2) mi] init(3) have p: "emptySem p = nat (Q mod 2 ^ 32)"
    "fullSem p = 0" "queueMutex p = None" "fullSlot p = 0" "emptySlot p = 0" "queueSize p = Q"
    "queue p = Some (replicate (nat Q) zeroMsg)"
    by auto
  from Q have "Q mod 2 ^ 32 = Q" by simp
  with p have e: "emptySem p = nat Q" by simp
  have "queue_inv (boot p ths)" using Q p e ths by (intro inv_boot) simp_all
  with p e show ?thesis by simp
qed

text \<open>
  Claim C1 (capacity invariant). Take the object a successful \<open>taosInitScheduler\<close>
  built with capacity \<open>Q \<ge> 1\<close> (its mutex initialised): \<open>emptySem\<close> starts at \<open>Q\<close> and \<open>fullSem\<close> at 0. Let
  any threads, each at its starting point, run under any schedule in which no semaphore
  or mutex call fails with an error other than \<open>EINTR\<close>. In every state reached the
  occupancy \<open>(emptySlot - fullSlot + Q) mod Q\<close> lies between 0 and \<open>Q\<close>, the two
  semaphore counts and the number of threads between a wait and its post add up to
  \<open>Q\<close>, and so at every quiescent point \<open>emptySem + fullSem = Q\<close>.
\<close>

theorem C1_capacity_invariant:
  assumes init: "taosInitScheduler env Q n lbl w = Inr (h, w')" "h \<noteq> NULL" "heap w' h = Some p"
    and mi: "env InitMutex"
    and Q: "1 \<le> Q" "Q < 2 ^ 31"
    and ths: "\<forall>th \<in> set ths. idle th"
    and run: "fault_free sch" "exec sch (boot p ths) = Inr s"
  shows "emptySem p = nat Q \<and> fullSem p = 0
     \<and> queueSize (sched s) = Q
     \<and> 0 \<le> occupied (sched s) \<and> occupied (sched s) \<le> Q
     \<and> int (emptySem (sched s)) + int (fullSem (sched s)) + in_flight s = Q
     \<and> (quiescent s \<longrightarrow> emptySem (sched s) + fullSem (sched s) = nat Q)"
proof -
  from boot_after_init [OF init mi Q ths] have b: "queue_inv (boot p ths)" "emptySem p = nat Q"
    "fullSem p = 0" "queueSize p = Q" by simp_all
  from inv_exec [OF b(1) run] have i: "inv_sems s" by (simp add: queue_inv_def)
  from exec_queueSize [OF run(2)] b(4) have z: "queueSize (sched s) = Q" by (simp add: boot_def)
  from i z have sum: "int (emptySem (sched s)) + int (fullSem (sched s)) + in_flight s = Q"
    unfolding inv_sems_def in_flight_def by linarith
  have "quiescent s \<longrightarrow> emptySem (sched s) + fullSem (sched s) = nat Q"
  proof
    assume "quiescent s"
    then have "in_flight s = 0" by (rule quiescent_in_flight)
    with sum show "emptySem (sched s) + fullSem (sched s) = nat Q" by linarith
  qed
  moreover have "0 \<le> occupied (sched s)" "occupied (sched s) \<le> Q"
    using Q z by (simp_all add: occupied_def less_imp_le)
  ultimately show ?thesis using b z sum by simp
qed

lemma demo_init:
  "\<exists>w'. taosInitScheduler all_ok 2 1 ''demo'' world0 = Inr (1, w') \<and> heap w' 1 = Some demo_sched"
  using demo_built by (simp add: demo_up_def)

theorem C1_capacity_invariant_witness:
  "\<exists>s. exec (replicate 8 (0, Success)) (boot demo_sched (threads (client 1))) = Inr s
     \<and> quiescent s \<and> emptySem (sched s) + fullSem (sched s) = 2 \<and> in_flight s = 0
     \<and> occupied (sched s) = 1"
proof -
  from demo_init obtain w' where i: "taosInitScheduler all_ok 2 1 ''demo'' world0 = Inr (1, w')"
    "heap w' 1 = Some demo_sched" by blast
  have ths: "\<forall>th \<in> set (threads (client 1)). idle th" by (simp add: client_def)
  have ff: "fault_free (replicate 8 (0, Success))" by (simp add: fault_free_def)
  have "\<exists>s. exec (replicate 8 (0, Success)) (boot demo_sched (threads (client 1))) = Inr s
     \<and> quiescent s \<and> occupied (sched s) = 1"
    by (simp add: boot_def client_def step_def numeral_eq_Suc demo_sched_def int32_def
        smod_nonneg quiescent_def occupied_def)
  then obtain s where run: "exec (replicate 8 (0, Success)) (boot demo_sched (threads (client 1))) = Inr s"
    and q: "quiescent s" "occupied (sched s) = 1" by blast
  have one: "(1::nat) \<noteq> NULL" "(1::int) \<le> 2" "(2::int) < 2 ^ 31" by simp_all
  have mi: "all_ok InitMutex" by (simp add: all_ok_def)
  from C1_capacity_invariant [OF i(1) one(1) i(2) mi one(2,3) ths ff run] q
  have "emptySem (sched s) + fullSem (sched s) = 2" "in_flight s = 0" by simp_all
  with run q show ?thesis by blast
qed

text \<open>
  The schedules of the theorem above are those without a fault, and that is needed:
  after a wait on \<open>emptySem\<close> that fails with an error other than \<open>EINTR\<close> the code
  logs and goes on without a permit (lines 162 to 164), and the counts of the sample
  scheduler, of capacity 2, then add up to 3.
\<close>

lemma failed_wait_breaks_capacity:
  "\<exists>s. exec ((0, Success) # (0, Failed) # replicate 6 (0, Success))
          (boot demo_sched (threads (client 1))) = Inr s
     \<and> quiescent s \<and> emptySem (sched s) + fullSem (sched s) = 3"
  by (simp add: boot_def client_def step_def numeral_eq_Suc demo_sched_def int32_def
      smod_nonneg quiescent_def)

text \<open>
  Claim C2 (global FIFO). One client submits the tasks \<open>t1 \<dots> tN\<close> in this order
  through a valid handle, and any number of workers consume them, under any schedule
  without a fault. The records read out of the slots, in the order of the reads, are at
  every moment an initial segment of \<open>t1 \<dots> tN\<close>, and once \<open>N\<close> records have been
  read they are exactly \<open>t1 \<dots> tN\<close>. (The bound \<open>N \<le> Q\<close> of the claim is not
  needed: a full queue makes the client wait.)
\<close>

theorem C2_global_fifo:
  assumes init: "taosInitScheduler env Q n lbl w = Inr (h, w')" "h \<noteq> NULL" "heap w' h = Some p"
    and mi: "env InitMutex"
    and Q: "1 \<le> Q" "Q < 2 ^ 31"
    and ws: "\<forall>th \<in> set ws. idle th \<and> is_worker th"
    and qh: "qhandle \<noteq> NULL"
    and run: "fault_free sch"
      "exec sch (boot p (Producer P_Entry (map (Pair qhandle) tasks) # ws)) = Inr s"
  shows "taken (trace s) = take (length (taken (trace s))) tasks
     \<and> (length (taken (trace s)) = length tasks \<longrightarrow> taken (trace s) = tasks)"
proof -
  let ?ths = "Producer P_Entry (map (Pair qhandle) tasks) # ws"
  have "\<forall>th \<in> set ?ths. idle th" using ws by simp
  from boot_after_init [OF init mi Q this] have b: "queue_inv (boot p ?ths)" by simp
  from inv_exec [OF b run] have f: "inv_fifo s" and se: "inv_sems s" by (simp_all add: queue_inv_def)
  have "inv_single tasks (boot p ?ths)"
    using ws qh by (simp add: inv_single_def boot_def comp_def)
  from single_exec [OF this run(2)] obtain rest where
    t: "written (trace s) @ rest = tasks" by (auto simp: inv_single_def)
  from se have "length (taken (trace s)) \<le> length (written (trace s))"
    using cnt_nonneg [of wrote "threads s"] cnt_nonneg [of holdsFull "threads s"]
    unfolding inv_sems_def by linarith
  with f t have "taken (trace s) = take (length (taken (trace s))) tasks"
    unfolding inv_fifo_def by (metis take_append diff_is_0_eq take_0 append_Nil2)
  then show ?thesis by (metis take_all order_refl)
qed


theorem C2_global_fifo_witness:
  "\<exists>s. exec demo_schedule
          (boot demo_sched [Producer P_Entry (map (Pair 1) [demo_msg, demo_msg2]),
                            Worker W_Wait zeroMsg, Worker W_Wait zeroMsg]) = Inr s
     \<and> taken (trace s) = [demo_msg, demo_msg2]"
proof -
  from demo_init obtain w' where i: "taosInitScheduler all_ok 2 1 ''demo'' world0 = Inr (1, w')"
    "heap w' 1 = Some demo_sched" by blast
  have ws: "\<forall>th \<in> set [Worker W_Wait zeroMsg, Worker W_Wait zeroMsg]. idle th \<and> is_worker th"
    by simp
  have ff: "fault_free demo_schedule" by (simp add: fault_free_def demo_schedule_def)
  have "\<exists>s. exec demo_schedule
          (boot demo_sched [Producer P_Entry (map (Pair 1) [demo_msg, demo_msg2]),
                            Worker W_Wait zeroMsg, Worker W_Wait zeroMsg]) = Inr s
     \<and> length (taken (trace s)) = 2"
    by (simp add: demo_schedule_def boot_def step_def numeral_eq_Suc demo_sched_def int32_def
        smod_nonneg)
  then obtain s where run: "exec demo_schedule
          (boot demo_sched [Producer P_Entry (map (Pair 1) [demo_msg, demo_msg2]),
                            Worker W_Wait zeroMsg, Worker W_Wait zeroMsg]) = Inr s"
    and len: "length (taken (trace s)) = 2" by blast
  have one: "(1::nat) \<noteq> NULL" "(1::int) \<le> 2" "(2::int) < 2 ^ 31" by simp_all
  have mi: "all_ok InitMutex" by (simp add: all_ok_def)
  from C2_global_fifo [OF i(1) one(1) i(2) mi one(2,3) ws one(1) ff run] len
  have "taken (trace s) = [demo_msg, demo_msg2]" by simp
  with run show ?thesis by blast
qed

end
